theory Spec2Isabelle
  imports Main "HOL-Library.Sublist" "HOL-Library.AList"
begin

section \<open>Paths\<close>

text \<open>
  A path is the list of its components, already normalised: no empty, \<open>.\<close> or \<open>..\<close>
  component. The empty list is the root of the tree the task runs in. The functions of
  Node's \<open>path\<close> module that \<open>index.js\<close> calls are read on that representation:
  \<open>path.join\<close> appends, \<open>path.dirname\<close> drops the last component, and \<open>path.basename\<close>
  is the last component, as a relative path of one component (of none for the root).
\<close>

type_synonym path = "string list"

definition join :: "path \<Rightarrow> path \<Rightarrow> path" where
  "join a b = a @ b"

definition dirname :: "path \<Rightarrow> path" where
  "dirname p = butlast p"

definition basename :: "path \<Rightarrow> path" where
  "basename p = (if p = [] then [] else [last p])"

definition relative :: "path \<Rightarrow> path \<Rightarrow> path" where
  "relative from to =
     (let k = length (longest_common_prefix from to)
      in replicate (length from - k) ''..'' @ drop k to)"

text \<open>
  \<open>path.parse\<close> splits the last component into \<open>name\<close> and \<open>ext\<close>: the extension starts
  at the last dot, unless there is no dot, the last dot is the first character
  (\<open>.bashrc\<close>), or the component is \<open>..\<close>.
\<close>

definition parse_base :: "string \<Rightarrow> string \<times> string" where
  "parse_base base =
     (let e = rev (takeWhile (\<lambda>c. c \<noteq> CHR ''.'') (rev base));
          n = take (length base - length e - 1) base
      in if CHR ''.'' \<notin> set base \<or> n = [] \<or> base = ''..'' then (base, [])
         else (n, CHR ''.'' # e))"

text \<open>The decimal digits of a number, as the template literal \<open>${counter}\<close> prints them.\<close>

fun show_nat :: "nat \<Rightarrow> string" where
  "show_nat n =
     (if n < 10 then [''0123456789'' ! n]
      else show_nat (n div 10) @ [''0123456789'' ! (n mod 10)])"

declare show_nat.simps [simp del]

section \<open>The file system\<close>

text \<open>
  The program talks to the file system through \<open>fs.stat\<close>, \<open>fs.access\<close>, \<open>fs.readdir\<close>,
  \<open>fs.mkdir\<close> with \<open>recursive: true\<close> and \<open>fs.copyFile\<close>. The state is an association
  list from paths to nodes; a node is a regular file with its bytes, or a directory.
  The root always is a directory. A call fails with an error code as Node reports it.
\<close>

datatype node = File string | Dir

type_synonym filesystem = "(path \<times> node) list"

text \<open>
  The errors a call can throw: the codes of the file system calls, and the three errors
  that \<open>copyItem\<close> makes itself with \<open>new Error\<close>, which carry no code (a directory
  where a file of that name exists, a file where a directory of that name exists, an
  unknown conflict resolution strategy).
\<close>

datatype error =
    ENOENT
  | ENOTDIR
  | ENAMETOOLONG
  | EISDIR
  | EEXIST
  | DirOverFile path
  | FileOverDir path path
  | UnknownStrategy string

text \<open>
  The operating system refuses a path of more than \<open>PATH_MAX\<close> bytes with the error
  \<open>ENAMETOOLONG\<close>, counting one byte after each component for the separator or the end
  of the string. The number is the one of Linux; the general statements below use only
  that there is such a limit.
\<close>

definition path_max :: nat where
  "path_max = 4096"

definition too_long :: "path \<Rightarrow> bool" where
  "too_long p = (path_max < sum_list (map (\<lambda>c. length c + 1) p))"

text \<open>
  \<open>fs.stat\<close> resolves a path: \<open>ENAMETOOLONG\<close> when the path is too long, \<open>ENOTDIR\<close> when
  a regular file stands on the way, \<open>ENOENT\<close> when nothing is there. \<open>fs.access\<close>
  succeeds where \<open>fs.stat\<close> does. \<open>fs.readdir\<close> gives the names of the entries of a
  directory.
\<close>

definition node_at :: "filesystem \<Rightarrow> path \<Rightarrow> node option" where
  "node_at fs p = (if p = [] then Some Dir else map_of fs p)"

definition is_file_at :: "filesystem \<Rightarrow> path \<Rightarrow> bool" where
  "is_file_at fs p = (case node_at fs p of Some (File c) \<Rightarrow> True | _ \<Rightarrow> False)"

definition ancestors :: "path \<Rightarrow> path list" where
  "ancestors p = butlast (prefixes p)"

definition stat :: "filesystem \<Rightarrow> path \<Rightarrow> error + node" where
  "stat fs p =
     (if too_long p then Inl ENAMETOOLONG
      else if \<exists>q \<in> set (ancestors p). is_file_at fs q then Inl ENOTDIR
      else case node_at fs p of None \<Rightarrow> Inl ENOENT | Some n \<Rightarrow> Inr n)"

definition access :: "filesystem \<Rightarrow> path \<Rightarrow> bool" where
  "access fs p = (case stat fs p of Inl e \<Rightarrow> False | Inr n \<Rightarrow> True)"

definition readdir :: "filesystem \<Rightarrow> path \<Rightarrow> error + string list" where
  "readdir fs p =
     (case stat fs p of
        Inl e \<Rightarrow> Inl e
      | Inr (File c) \<Rightarrow> Inl ENOTDIR
      | Inr Dir \<Rightarrow>
          Inr (remdups (map last (filter (\<lambda>q. q \<noteq> [] \<and> butlast q = p) (map fst fs)))))"

text \<open>
  \<open>fs.mkdir\<close> with \<open>recursive: true\<close> makes the directory and every missing ancestor
  and accepts a directory that exists; a regular file at the path or on the way is an
  error. \<open>fs.copyFile\<close> writes the bytes of a regular file to a path whose parent is a
  directory, over a regular file if there is one.
\<close>

definition add_dir :: "path \<Rightarrow> filesystem \<Rightarrow> filesystem" where
  "add_dir q fs = (if node_at fs q = None then AList.update q Dir fs else fs)"

definition mkdir_p :: "filesystem \<Rightarrow> path \<Rightarrow> error + filesystem" where
  "mkdir_p fs p =
     (if too_long p then Inl ENAMETOOLONG
      else if \<exists>q \<in> set (ancestors p). is_file_at fs q then Inl ENOTDIR
      else if is_file_at fs p then Inl EEXIST
      else Inr (fold add_dir (prefixes p) fs))"

definition copyFile :: "filesystem \<Rightarrow> path \<Rightarrow> path \<Rightarrow> error + filesystem" where
  "copyFile fs src dst =
     (case stat fs src of
        Inl e \<Rightarrow> Inl e
      | Inr Dir \<Rightarrow> Inl EISDIR
      | Inr (File c) \<Rightarrow>
          (case stat fs dst of
             Inr Dir \<Rightarrow> Inl EISDIR
           | Inr (File old) \<Rightarrow> Inr (AList.update dst (File c) fs)
           | Inl e \<Rightarrow>
               if e = ENOENT \<and> stat fs (dirname dst) = Inr Dir
               then Inr (AList.update dst (File c) fs)
               else Inl e))"

text \<open>
  A well-formed file system: every entry lies in a directory, and so do its ancestors.
\<close>

definition wf_fs :: "filesystem \<Rightarrow> bool" where
  "wf_fs fs = list_all (\<lambda>p. list_all (\<lambda>q. node_at fs q = Some Dir) (ancestors p)) (map fst fs)"

section \<open>getUniqueFileName\<close>

text \<open>
  \<open>suffixed filePath counter\<close> is \<open>path.join(dir, `${name}_${counter}${ext}`)\<close> for the
  \<open>dir\<close>, \<open>name\<close> and \<open>ext\<close> of \<open>path.parse(filePath)\<close>. The loop of
  \<open>getUniqueFileName\<close> carries \<open>uniquePath\<close> and \<open>counter\<close>.
\<close>

definition suffixed :: "path \<Rightarrow> nat \<Rightarrow> path" where
  "suffixed filePath counter =
     (let (name, ext) = parse_base (if filePath = [] then [] else last filePath)
      in join (dirname filePath) [name @ ''_'' @ show_nat counter @ ext])"

function uniqueLoop :: "filesystem \<Rightarrow> path \<Rightarrow> path \<Rightarrow> nat \<Rightarrow> path" where
  "uniqueLoop fs filePath uniquePath counter =
     (if access fs uniquePath
      then uniqueLoop fs filePath (suffixed filePath counter) (counter + 1)
      else uniquePath)"
  by pat_completeness auto

lemma show_nat_not_Nil: "show_nat n \<noteq> []"
  by (subst show_nat.simps) simp

lemma digit_inj:
  assumes "a < 10" "b < 10" "''0123456789'' ! a = ''0123456789'' ! b"
  shows "a = b"
proof -
  have d: "distinct ''0123456789''" by simp
  have "a < length ''0123456789''" "b < length ''0123456789''"
    using assms by simp_all
  with d assms(3) show ?thesis
    by (simp only: nth_eq_iff_index_eq)
qed

lemma show_nat_inj: "show_nat n = show_nat m \<Longrightarrow> n = m"
proof (induction n arbitrary: m rule: show_nat.induct)
  case (1 n)
  show ?case
  proof (cases "n < 10")
    case True
    have "m < 10"
    proof (rule ccontr)
      assume "\<not> m < 10"
      then have "length (show_nat m) \<ge> 2"
        using show_nat_not_Nil [of "m div 10"]
        by (subst show_nat.simps) (simp add: Suc_le_eq)
      moreover have "length (show_nat n) = 1"
        using True by (subst show_nat.simps) simp
      ultimately show False using "1.prems" by simp
    qed
    with True "1.prems" show ?thesis
      by (subst (asm) show_nat.simps, subst (asm) (2) show_nat.simps)
         (auto intro: digit_inj)
  next
    case False
    have "\<not> m < 10"
    proof
      assume "m < 10"
      then have "length (show_nat m) = 1"
        by (subst show_nat.simps) simp
      moreover have "length (show_nat n) \<ge> 2"
        using False show_nat_not_Nil [of "n div 10"]
        by (subst show_nat.simps) (simp add: Suc_le_eq)
      ultimately show False using "1.prems" by simp
    qed
    with False "1.prems"
    have eq: "show_nat (n div 10) @ [''0123456789'' ! (n mod 10)]
            = show_nat (m div 10) @ [''0123456789'' ! (m mod 10)]"
      by (subst (asm) show_nat.simps, subst (asm) (2) show_nat.simps) simp
    then have "show_nat (n div 10) = show_nat (m div 10)"
      and dg: "''0123456789'' ! (n mod 10) = ''0123456789'' ! (m mod 10)"
      by simp_all
    then have "n div 10 = m div 10"
      using "1.IH" False by blast
    moreover have "n mod 10 = m mod 10"
      using dg by (intro digit_inj) simp_all
    ultimately show ?thesis
      by (metis div_mult_mod_eq)
  qed
qed

lemma suffixed_inj: "suffixed p n = suffixed p m \<Longrightarrow> n = m"
  by (auto simp: suffixed_def join_def split: prod.splits dest: show_nat_inj)

lemma suffixed_not_Nil: "suffixed p n \<noteq> []"
  by (simp add: suffixed_def join_def split: prod.splits)

lemma access_in_keys: "access fs p \<Longrightarrow> p = [] \<or> p \<in> fst ` set fs"
  by (auto simp: access_def stat_def node_at_def split: if_splits option.splits
           dest: map_of_SomeD intro: rev_image_eqI)

lemma finite_occupied: "finite {n. access fs (suffixed p n)}"
proof -
  have "{n. access fs (suffixed p n)} \<subseteq> suffixed p -` (fst ` set fs)"
    using access_in_keys suffixed_not_Nil by fastforce
  moreover have "finite (suffixed p -` (fst ` set fs))"
    by (intro finite_vimageI) (auto simp: inj_on_def dest: suffixed_inj)
  ultimately show ?thesis
    by (rule finite_subset)
qed

termination uniqueLoop
proof (relation "measure (\<lambda>(fs, filePath, uniquePath, counter).
          card {n. counter \<le> n \<and> access fs (suffixed filePath n)}
          + (if access fs uniquePath then 1 else 0))")
  show "wf (measure (\<lambda>(fs, filePath, uniquePath, counter).
          card {n. counter \<le> n \<and> access fs (suffixed filePath n)}
          + (if access fs uniquePath then 1 else 0)))"
    by simp
next
  fix fs :: filesystem and filePath uniquePath :: path and counter :: nat
  assume a: "access fs uniquePath"
  let ?A = "{n. counter \<le> n \<and> access fs (suffixed filePath n)}"
  let ?B = "{n. counter + 1 \<le> n \<and> access fs (suffixed filePath n)}"
  have fin: "finite ?A"
    by (rule finite_subset [OF _ finite_occupied [of fs filePath]]) auto
  have "card ?B + (if access fs (suffixed filePath counter) then 1 else 0) \<le> card ?A"
  proof (cases "access fs (suffixed filePath counter)")
    case True
    have "?A = insert counter ?B"
      using True by (auto simp: le_Suc_eq)
    moreover have "counter \<notin> ?B" by simp
    moreover have "finite ?B"
      by (rule finite_subset [OF _ fin]) auto
    ultimately show ?thesis
      using True by simp
  next
    case False
    have "?B \<subseteq> ?A" by auto
    then show ?thesis
      using False fin by (simp add: card_mono)
  qed
  then show "((fs, filePath, suffixed filePath counter, counter + 1),
              (fs, filePath, uniquePath, counter))
        \<in> measure (\<lambda>(fs, filePath, uniquePath, counter).
            card {n. counter \<le> n \<and> access fs (suffixed filePath n)}
            + (if access fs uniquePath then 1 else 0))"
    using a by simp
qed

declare uniqueLoop.simps [simp del]

definition getUniqueFileName :: "filesystem \<Rightarrow> path \<Rightarrow> path" where
  "getUniqueFileName fs filePath = uniqueLoop fs filePath filePath 1"

section \<open>copyItem\<close>

text \<open>
  What a run does that can be seen from outside, in order: a directory listed
  (\<open>fs.readdir\<close> on \<open>source\<close> at \<open>currentDepth\<close>), the four messages of the
  \<open>verbose\<close> log level, the message of \<open>console.error\<close> in the outer \<open>catch\<close>, and the
  call of the \<open>done\<close> callback. The parameter \<open>logLevel\<close> chooses what is printed and
  nothing else, and is left out.
\<close>

datatype event =
    Listed path int
  | Copied path path
  | Overwritten path path
  | Skipped path path
  | Renamed path path
  | Failed path error
  | Done

type_synonym run = "filesystem \<times> event list"

text \<open>
  The directory branch, \<open>if (!flatten)\<close>: the inner \<open>try\<close> stats \<open>destination\<close> and
  throws when it is a file; its \<open>catch\<close> makes the directory on \<open>ENOENT\<close> and throws
  every other error again.
\<close>

definition ensureDir :: "filesystem \<Rightarrow> path \<Rightarrow> error + filesystem" where
  "ensureDir fs destination =
     (case stat fs destination of
        Inr (File c) \<Rightarrow> Inl (DirOverFile destination)
      | Inr Dir \<Rightarrow> Inr fs
      | Inl err \<Rightarrow> if err = ENOENT then mkdir_p fs destination else Inl err)"

text \<open>
  The file branch. \<open>onError\<close> is the inner \<open>catch\<close>: on \<open>ENOENT\<close> it makes the parent
  directories and copies; any other error goes to the outer \<open>catch\<close>, which reports it.
  An error leaves the file system as the calls before it left it.
\<close>

definition onError :: "error \<Rightarrow> path \<Rightarrow> path \<Rightarrow> filesystem \<Rightarrow> run" where
  "onError err source destPath fs =
     (if err = ENOENT then
        (case mkdir_p fs (dirname destPath) of
           Inl e \<Rightarrow> (fs, [Failed source e])
         | Inr fs1 \<Rightarrow>
             (case copyFile fs1 source destPath of
                Inl e \<Rightarrow> (fs1, [Failed source e])
              | Inr fs2 \<Rightarrow> (fs2, [Copied source destPath])))
      else (fs, [Failed source err]))"

definition copyFileItem :: "path \<Rightarrow> path \<Rightarrow> bool \<Rightarrow> string \<Rightarrow> filesystem \<Rightarrow> run" where
  "copyFileItem source destination flatten conflictResolution fs =
     (let destPath = (if flatten then join destination (basename source) else destination)
      in case stat fs destPath of
           Inl err \<Rightarrow> onError err source destPath fs
         | Inr Dir \<Rightarrow> onError (FileOverDir source destPath) source destPath fs
         | Inr (File old) \<Rightarrow>
             if conflictResolution = ''overwrite'' then
               (case copyFile fs source destPath of
                  Inl err \<Rightarrow> onError err source destPath fs
                | Inr fs1 \<Rightarrow> (fs1, [Overwritten source destPath]))
             else if conflictResolution = ''skip'' then (fs, [Skipped source destPath])
             else if conflictResolution = ''rename'' then
               (let uniquePath = getUniqueFileName fs destPath
                in case copyFile fs source uniquePath of
                     Inl err \<Rightarrow> onError err source destPath fs
                   | Inr fs1 \<Rightarrow> (fs1, [Renamed source uniquePath]))
             else onError (UnknownStrategy conflictResolution) source destPath fs)"

text \<open>
  A \<open>for ... of\<close> loop whose body awaits a call that changes the file system: the calls
  run one after another, each on the state the one before left. \<open>None\<close> is a call that
  has not returned.
\<close>

fun forEach :: "('a \<Rightarrow> filesystem \<Rightarrow> run option) \<Rightarrow> 'a list \<Rightarrow> filesystem \<Rightarrow> run option" where
  "forEach f [] fs = Some (fs, [])"
| "forEach f (x # xs) fs =
     (case f x fs of
        None \<Rightarrow> None
      | Some (fs1, evs1) \<Rightarrow>
          (case forEach f xs fs1 of
             None \<Rightarrow> None
           | Some (fs2, evs2) \<Rightarrow> Some (fs2, evs1 @ evs2)))"

text \<open>
  \<open>copyItem\<close> calls itself on every entry of a directory, one level deeper. The first
  argument bounds the nesting of calls: with none left the call has not returned.
\<close>

primrec copyItem ::
  "nat \<Rightarrow> path \<Rightarrow> path \<Rightarrow> int \<Rightarrow> int \<Rightarrow> bool \<Rightarrow> string \<Rightarrow> int \<Rightarrow> filesystem \<Rightarrow> run option" where
  "copyItem 0 source destination depth height flatten conflictResolution currentDepth fs = None"
| "copyItem (Suc fuel) source destination depth height flatten conflictResolution currentDepth fs =
     (case stat fs source of
        Inl err \<Rightarrow> Some (fs, [Failed source err])
      | Inr (File c) \<Rightarrow> Some (copyFileItem source destination flatten conflictResolution fs)
      | Inr Dir \<Rightarrow>
          if depth > 0 \<and> currentDepth \<ge> depth then Some (fs, [])
          else if height > 0 \<and> currentDepth \<ge> height then Some (fs, [])
          else
            (case readdir fs source of
               Inl err \<Rightarrow> Some (fs, [Failed source err])
             | Inr items \<Rightarrow>
                 if items = [] \<and> flatten then Some (fs, [Listed source currentDepth])
                 else
                   (case (if \<not> flatten then ensureDir fs destination else Inr fs) of
                      Inl err \<Rightarrow> Some (fs, [Listed source currentDepth, Failed source err])
                    | Inr fs1 \<Rightarrow>
                        (case forEach
                                (\<lambda>item. copyItem fuel (join source [item])
                                   (if flatten then join destination (basename [item])
                                    else join destination [item])
                                   depth height flatten conflictResolution (currentDepth + 1))
                                items fs1 of
                           None \<Rightarrow> None
                         | Some (fs2, evs) \<Rightarrow> Some (fs2, Listed source currentDepth # evs)))))"

section \<open>copy\<close>

text \<open>
  One entry of \<open>cfg\<close>: \<open>src\<close> is a path or an array of paths; the fields with a default
  may be absent. \<open>copyTask\<close> is the body of the loop of \<open>copy\<close> over \<open>cfg\<close>; the argument
  \<open>done\<close> of \<open>copy\<close> says whether a callback is given.
\<close>

datatype sources = Single path | Multi "path list"

record task =
  src :: sources
  dest :: path
  depth :: "int option"
  height :: "int option"
  flatten :: "bool option"
  conflictResolution :: "string option"

definition orDefault :: "'a option \<Rightarrow> 'a \<Rightarrow> 'a" where
  "orDefault v d = (case v of None \<Rightarrow> d | Some x \<Rightarrow> x)"

definition copyTask :: "nat \<Rightarrow> task \<Rightarrow> filesystem \<Rightarrow> run option" where
  "copyTask fuel item fs =
     (let d = orDefault (depth item) 0;
          h = orDefault (height item) 0;
          fl = orDefault (flatten item) False;
          cr = orDefault (conflictResolution item) ''overwrite''
      in case src item of
           Multi ss \<Rightarrow>
             forEach
               (\<lambda>source. copyItem fuel source
                  (if fl then dest item
                   else join (dest item) (relative (dirname source) source))
                  d h fl cr 0)
               ss fs
         | Single s \<Rightarrow>
             copyItem fuel s
               (if fl then dest item else join (dest item) (basename s))
               d h fl cr 0 fs)"

definition copy :: "nat \<Rightarrow> task list \<Rightarrow> bool \<Rightarrow> filesystem \<Rightarrow> run option" where
  "copy fuel cfg done fs =
     (case forEach (copyTask fuel) cfg fs of
        None \<Rightarrow> None
      | Some (fs1, evs) \<Rightarrow> Some (fs1, evs @ (if done then [Done] else [])))"

section \<open>Notions for the statements\<close>

text \<open>The source and the target of an event that writes a file.\<close>

fun writes :: "event \<Rightarrow> (path \<times> path) option" where
  "writes (Copied s t) = Some (s, t)"
| "writes (Overwritten s t) = Some (s, t)"
| "writes (Renamed s t) = Some (s, t)"
| "writes ev = None"

text \<open>
  The nesting level of a path below the root of a run: the root is at level 0, an entry
  of the root directory at level 1. It is the value of \<open>currentDepth\<close> in the call of
  \<open>copyItem\<close> on that path when the root call has \<open>currentDepth = 0\<close>.
\<close>

definition nesting_level :: "path \<Rightarrow> path \<Rightarrow> int" where
  "nesting_level root p = int (length p) - int (length root)"

text \<open>
  The level of a file below the root of a run, in directory levels descended: the level
  of the directory that holds it, which is the value of \<open>currentDepth\<close> in the call that
  lists that directory. A file that lies directly in the root directory is at level 0, a
  file in a subdirectory of the root at level 1; a root that is a file is at level 0.
\<close>

definition file_level :: "path \<Rightarrow> path \<Rightarrow> int" where
  "file_level root p = (if p = root then 0 else nesting_level root (dirname p))"

text \<open>The roots of the runs of a task: the paths of \<open>src\<close>.\<close>

definition task_sources :: "task \<Rightarrow> path list" where
  "task_sources item = (case src item of Single s \<Rightarrow> [s] | Multi ss \<Rightarrow> ss)"

text \<open>
  What every event of a call of \<open>copyItem\<close> on \<open>source\<close> with counter \<open>cd\<close> satisfies: it
  is about a path at or below \<open>source\<close>; a listing carries the counter of its call, which
  is below every bound that is set; a file that is written is \<open>source\<close> itself or lies, by
  its counter, at most at the bounds that are set.
\<close>

definition event_ok :: "path \<Rightarrow> int \<Rightarrow> int \<Rightarrow> int \<Rightarrow> event \<Rightarrow> bool" where
  "event_ok source cd dp ht ev =
     (case ev of
        Listed p c \<Rightarrow>
          prefix source p \<and> c = cd + nesting_level source p
          \<and> (if 0 < dp then c < dp else True) \<and> (if 0 < ht then c < ht else True)
      | Done \<Rightarrow> False
      | Failed s e \<Rightarrow> prefix source s
      | Skipped s t \<Rightarrow> prefix source s
      | _ \<Rightarrow>
          (case writes ev of
             None \<Rightarrow> False
           | Some (s, t) \<Rightarrow>
               prefix source s
               \<and> (s = source
                  \<or> (if 0 < dp then cd + nesting_level source s \<le> dp else True)
                    \<and> (if 0 < ht then cd + nesting_level source s \<le> ht else True))))"

text \<open>
  Every file of the file system after a run was there before with the same bytes, or
  is the target of an event of the run that writes a file.
\<close>

definition files_from_events :: "filesystem \<Rightarrow> filesystem \<Rightarrow> event list \<Rightarrow> bool" where
  "files_from_events fs fs' evs =
     (\<forall>p c. node_at fs' p = Some (File c) \<longrightarrow>
        node_at fs p = Some (File c) \<or> (\<exists>ev \<in> set evs. \<exists>s. writes ev = Some (s, p)))"

section \<open>Example file systems and tasks\<close>

text \<open>
  Small trees, after the ones the test suite of the repository builds, on which the
  theorems are instantiated.
\<close>

definition fs_skip :: filesystem where
  "fs_skip = [([''src''], Dir), ([''src'', ''file1.txt''], File ''File 1 content''),
              ([''dist''], Dir), ([''dist'', ''file1.txt''], File ''Modified content'')]"

definition fs_conflict :: filesystem where
  "fs_conflict = [([''src''], Dir), ([''src'', ''folder1''], Dir),
                  ([''src'', ''folder1'', ''file3.txt''], File ''File 3 content''),
                  ([''dist''], Dir), ([''dist'', ''folder1''], File ''This is a file''),
                  ([''dist'', ''file3.txt''], Dir)]"

definition fs_tree :: filesystem where
  "fs_tree = [([''a''], Dir), ([''a'', ''x.txt''], File ''1''), ([''a'', ''b''], Dir),
              ([''a'', ''b'', ''y.txt''], File ''2'')]"

definition fs_names :: filesystem where
  "fs_names = [([''dist''], Dir), ([''dist'', ''file1.txt''], File ''a''),
               ([''dist'', ''file1_1.txt''], File ''b'')]"

definition fs_src :: filesystem where
  "fs_src = [([''src''], Dir), ([''src'', ''file1.txt''], File ''File 1 content''),
             ([''dist''], Dir)]"

definition fs_siblings :: filesystem where
  "fs_siblings = [([''a''], Dir), ([''a'', ''x.txt''], File ''1''), ([''a'', ''z.txt''], File ''3''),
                  ([''out''], Dir), ([''out'', ''a''], Dir), ([''out'', ''a'', ''x.txt''], Dir)]"

definition cfg_with_failures :: "task list" where
  "cfg_with_failures =
     [\<lparr>src = Multi [[''a'', ''x.txt''], [''missing''], [''a'', ''b'', ''y.txt'']],
       dest = [''out''], depth = None, height = None, flatten = Some True,
       conflictResolution = None\<rparr>,
      \<lparr>src = Single [''a'', ''b''], dest = [''out'', ''x.txt''], depth = None, height = None,
       flatten = None, conflictResolution = None\<rparr>,
      \<lparr>src = Single [''a'', ''x.txt''], dest = [''out''], depth = None, height = None,
       flatten = Some True, conflictResolution = Some ''bogus''\<rparr>,
      \<lparr>src = Single [''a'', ''b'', ''y.txt''], dest = [''out2''], depth = None, height = None,
       flatten = Some True, conflictResolution = None\<rparr>]"

section \<open>Facts about the file system calls\<close>

lemma set_ancestors: "set (ancestors p) = {q. strict_prefix q p}"
proof (cases p rule: rev_cases)
  case Nil
  then show ?thesis by (simp add: ancestors_def)
next
  case (snoc ys y)
  then show ?thesis
    by (auto simp: ancestors_def strict_prefix_def)
qed

lemma node_at_update:
  "node_at (AList.update q n fs) r = (if r = [] then Some Dir else if r = q then Some n else node_at fs r)"
  by (simp add: node_at_def update_conv')

lemma node_at_add_dir:
  "node_at (add_dir q fs) r = (if r = q \<and> node_at fs r = None then Some Dir else node_at fs r)"
  by (auto simp: add_dir_def node_at_update) (simp add: node_at_def)

lemma node_at_fold_add_dir:
  "node_at (fold add_dir qs fs) r = (if r \<in> set qs \<and> node_at fs r = None then Some Dir else node_at fs r)"
  by (induction qs arbitrary: fs) (auto simp: node_at_add_dir)

lemma too_long_prefix: "prefix q p \<Longrightarrow> too_long q \<Longrightarrow> too_long p"
  by (auto simp: too_long_def prefix_def)

lemma too_long_depth: "path_max < length p \<Longrightarrow> too_long p"
proof -
  have "length p \<le> sum_list (map (\<lambda>c. length c + 1) p)"
    by (induction p) auto
  then show "path_max < length p \<Longrightarrow> too_long p"
    by (simp add: too_long_def)
qed

lemma stat_Inr_iff:
  "stat fs p = Inr n \<longleftrightarrow>
     \<not> too_long p \<and> (\<forall>q. strict_prefix q p \<longrightarrow> \<not> is_file_at fs q) \<and> node_at fs p = Some n"
  by (auto simp: stat_def set_ancestors split: option.splits)

lemma stat_ENOENT_iff:
  "stat fs p = Inl ENOENT \<longleftrightarrow>
     \<not> too_long p \<and> (\<forall>q. strict_prefix q p \<longrightarrow> \<not> is_file_at fs q) \<and> node_at fs p = None"
  by (auto simp: stat_def set_ancestors split: option.splits)

lemma stat_Inl_cases: "stat fs p = Inl e \<Longrightarrow> e = ENOENT \<or> e = ENOTDIR \<or> e = ENAMETOOLONG"
  by (auto simp: stat_def split: if_splits option.splits)

lemma is_file_at_iff: "is_file_at fs p \<longleftrightarrow> (\<exists>c. node_at fs p = Some (File c))"
  by (auto simp: is_file_at_def split: option.splits node.splits)

lemma mkdir_p_Inr_iff:
  "mkdir_p fs p = Inr fs' \<longleftrightarrow>
     \<not> too_long p \<and> (\<forall>q. prefix q p \<longrightarrow> \<not> is_file_at fs q)
     \<and> fs' = fold add_dir (prefixes p) fs"
  by (auto simp: mkdir_p_def set_ancestors strict_prefix_def)

lemma node_at_mkdir_p:
  "mkdir_p fs p = Inr fs' \<Longrightarrow>
     node_at fs' r = (if prefix r p \<and> node_at fs r = None then Some Dir else node_at fs r)"
  by (simp add: mkdir_p_Inr_iff node_at_fold_add_dir)

lemma is_file_at_mkdir_p:
  "mkdir_p fs p = Inr fs' \<Longrightarrow> is_file_at fs' r = is_file_at fs r"
  by (auto simp: is_file_at_iff node_at_mkdir_p)

lemma stat_mkdir_p_self:
  assumes "mkdir_p fs p = Inr fs'"
  shows "stat fs' p = Inr Dir"
proof -
  have nf: "\<And>q. prefix q p \<Longrightarrow> \<not> is_file_at fs q"
    using assms by (simp add: mkdir_p_Inr_iff)
  have "node_at fs' p = Some Dir"
  proof (cases "node_at fs p")
    case None
    then show ?thesis by (simp add: node_at_mkdir_p [OF assms])
  next
    case (Some n)
    with nf [of p] have "n = Dir"
      by (cases n) (simp_all add: is_file_at_iff)
    with Some show ?thesis by (simp add: node_at_mkdir_p [OF assms])
  qed
  moreover have "\<And>q. strict_prefix q p \<Longrightarrow> \<not> is_file_at fs' q"
    using nf by (simp add: is_file_at_mkdir_p [OF assms] strict_prefix_def)
  moreover have "\<not> too_long p"
    using assms by (simp add: mkdir_p_Inr_iff)
  ultimately show ?thesis
    by (simp add: stat_Inr_iff)
qed

lemma stat_mkdir_p_keeps:
  assumes "mkdir_p fs p = Inr fs'" and "stat fs r = Inr n"
  shows "stat fs' r = Inr n"
  using assms(2)
  by (simp add: stat_Inr_iff is_file_at_mkdir_p [OF assms(1)] node_at_mkdir_p [OF assms(1)])

lemma mkdir_p_after_ENOENT:
  assumes "stat fs p = Inl ENOENT" and "prefix d p"
  shows "\<exists>fs'. mkdir_p fs d = Inr fs'"
proof -
  have "\<not> is_file_at fs q" if "prefix q d" for q
  proof (cases "q = p")
    case True
    with assms(1) show ?thesis
      by (simp add: stat_ENOENT_iff is_file_at_iff)
  next
    case False
    with that assms(2) have "strict_prefix q p"
      by (auto simp: strict_prefix_def intro: prefix_order.trans)
    with assms(1) show ?thesis
      by (simp add: stat_ENOENT_iff)
  qed
  moreover have "\<not> too_long d"
    using assms too_long_prefix [of d p] by (auto simp: stat_ENOENT_iff)
  ultimately show ?thesis
    by (simp add: mkdir_p_Inr_iff)
qed

lemma copyFile_new:
  assumes "stat fs s = Inr (File c)" and "stat fs dst = Inl ENOENT"
    and "stat fs (dirname dst) = Inr Dir"
  shows "copyFile fs s dst = Inr (AList.update dst (File c) fs)"
  using assms by (simp add: copyFile_def)

lemma copyFile_over:
  assumes "stat fs s = Inr (File c)" and "stat fs dst = Inr (File old)"
  shows "copyFile fs s dst = Inr (AList.update dst (File c) fs)"
  using assms by (simp add: copyFile_def)

lemma copyFile_Inr_D:
  assumes "copyFile fs s dst = Inr fs'"
  shows "\<exists>c. stat fs s = Inr (File c) \<and> fs' = AList.update dst (File c) fs \<and> dst \<noteq> []
           \<and> \<not> too_long dst \<and> (\<forall>q. strict_prefix q dst \<longrightarrow> \<not> is_file_at fs q)"
  using assms
  by (auto simp: copyFile_def stat_Inr_iff stat_ENOENT_iff node_at_def
           split: sum.splits node.splits if_splits)

lemma stat_written:
  assumes "\<forall>q. strict_prefix q dst \<longrightarrow> \<not> is_file_at fs q" and "dst \<noteq> []"
    and "\<not> too_long dst"
  shows "stat (AList.update dst (File c) fs) dst = Inr (File c)"
  using assms
  by (auto simp: stat_Inr_iff node_at_update is_file_at_iff)

lemma stat_update_other:
  assumes "q \<noteq> u" and "\<not> strict_prefix u q"
  shows "stat (AList.update u n fs) q = stat fs q"
proof -
  have "is_file_at (AList.update u n fs) r = is_file_at fs r" if "strict_prefix r q" for r
  proof -
    from that assms(2) have "r \<noteq> u" by auto
    then have "node_at (AList.update u n fs) r = node_at fs r"
      by (simp add: node_at_update) (simp add: node_at_def)
    then show ?thesis by (simp add: is_file_at_def)
  qed
  moreover have "node_at (AList.update u n fs) q = node_at fs q"
    using assms(1) by (simp add: node_at_update) (simp add: node_at_def)
  ultimately show ?thesis
    by (auto simp: stat_def set_ancestors)
qed

section \<open>Facts about one call of copyItem\<close>

lemma stat_root: "stat fs [] = Inr Dir"
  by (simp add: stat_def ancestors_def node_at_def too_long_def)

lemma ENOENT_not_root: "stat fs p = Inl ENOENT \<Longrightarrow> p \<noteq> []"
  by (auto simp: stat_root)

lemma readdir_of_dir: "stat fs p = Inr Dir \<Longrightarrow> \<exists>items. readdir fs p = Inr items"
  by (simp add: readdir_def)

lemma stat_mkdir_p_parent_ENOENT:
  assumes "stat fs p = Inl ENOENT" and "mkdir_p fs (dirname p) = Inr fs1"
  shows "stat fs1 p = Inl ENOENT"
proof -
  have "p \<noteq> []" using assms(1) by (rule ENOENT_not_root)
  then have "\<not> prefix p (dirname p)"
    by (metis dirname_def prefix_length_le length_butlast diff_less length_greater_0_conv
        not_less zero_less_one)
  then show ?thesis
    using assms(1)
    by (simp add: stat_ENOENT_iff is_file_at_mkdir_p [OF assms(2)] node_at_mkdir_p [OF assms(2)])
qed

lemma onError_ENOENT:
  assumes "stat fs source = Inr (File c)" and "stat fs destPath = Inl ENOENT"
  shows "\<exists>fs'. onError ENOENT source destPath fs = (fs', [Copied source destPath])
           \<and> stat fs' destPath = Inr (File c) \<and> stat fs' (dirname destPath) = Inr Dir"
proof -
  have ne: "destPath \<noteq> []" using assms(2) by (rule ENOENT_not_root)
  have "prefix (dirname destPath) destPath"
    by (simp add: dirname_def prefixI [of destPath "butlast destPath" "[last destPath]"] ne)
  then obtain fs1 where mk: "mkdir_p fs (dirname destPath) = Inr fs1"
    using mkdir_p_after_ENOENT [OF assms(2)] by blast
  have s1: "stat fs1 source = Inr (File c)"
    using mk assms(1) by (rule stat_mkdir_p_keeps)
  have d1: "stat fs1 destPath = Inl ENOENT"
    using assms(2) mk by (rule stat_mkdir_p_parent_ENOENT)
  have p1: "stat fs1 (dirname destPath) = Inr Dir"
    using mk by (rule stat_mkdir_p_self)
  let ?fs2 = "AList.update destPath (File c) fs1"
  have cp: "copyFile fs1 source destPath = Inr ?fs2"
    using s1 d1 p1 by (rule copyFile_new)
  have anc: "\<forall>q. strict_prefix q destPath \<longrightarrow> \<not> is_file_at fs1 q"
    using d1 by (simp add: stat_ENOENT_iff)
  have nl: "\<not> too_long destPath"
    using assms(2) by (simp add: stat_ENOENT_iff)
  have w: "stat ?fs2 destPath = Inr (File c)"
    using anc ne nl by (rule stat_written)
  have "strict_prefix (dirname destPath) destPath"
    using ne by (metis dirname_def append_butlast_last_id strict_prefixI' )
  then have neq: "dirname destPath \<noteq> destPath" and nsp: "\<not> strict_prefix destPath (dirname destPath)"
    by (auto simp: strict_prefix_def)
  have pd: "stat ?fs2 (dirname destPath) = Inr Dir"
    using p1 neq nsp
    by (auto simp: stat_Inr_iff node_at_update is_file_at_iff)
  show ?thesis
    using mk cp w pd by (simp add: onError_def)
qed

lemma stat_mkdir_p_prefix:
  assumes "mkdir_p fs p = Inr fs'" and "prefix q p"
  shows "stat fs' q = Inr Dir"
proof -
  from assms(1) have nl: "\<not> too_long p" and nf: "\<And>r. prefix r p \<Longrightarrow> \<not> is_file_at fs r"
    by (simp_all add: mkdir_p_Inr_iff)
  have "\<not> too_long q"
    using nl assms(2) too_long_prefix by blast
  moreover have "\<not> is_file_at fs' r" if "strict_prefix r q" for r
  proof -
    from that assms(2) have "prefix r p"
      by (auto simp: strict_prefix_def intro: prefix_order.trans)
    then show ?thesis
      using nf by (simp add: is_file_at_mkdir_p [OF assms(1)])
  qed
  moreover have "node_at fs' q = Some Dir"
  proof (cases "node_at fs q")
    case None
    with assms(2) show ?thesis by (simp add: node_at_mkdir_p [OF assms(1)])
  next
    case (Some n)
    with nf [OF assms(2)] have "n = Dir"
      by (cases n) (auto simp: is_file_at_iff)
    with Some show ?thesis by (simp add: node_at_mkdir_p [OF assms(1)])
  qed
  ultimately show ?thesis
    by (simp add: stat_Inr_iff)
qed

lemma onError_ENOENT_parents:
  assumes "stat fs source = Inr (File c)" and "stat fs destPath = Inl ENOENT"
  shows "\<exists>fs'. onError ENOENT source destPath fs = (fs', [Copied source destPath])
           \<and> (\<forall>q. prefix q (dirname destPath) \<longrightarrow> stat fs' q = Inr Dir)
           \<and> (\<forall>q. \<not> prefix q destPath \<longrightarrow> node_at fs' q = node_at fs q)"
proof -
  have ne: "destPath \<noteq> []" using assms(2) by (rule ENOENT_not_root)
  have pp: "prefix (dirname destPath) destPath"
    by (simp add: dirname_def prefixI [of destPath "butlast destPath" "[last destPath]"] ne)
  then obtain fs1 where mk: "mkdir_p fs (dirname destPath) = Inr fs1"
    using mkdir_p_after_ENOENT [OF assms(2)] by blast
  have s1: "stat fs1 source = Inr (File c)"
    using mk assms(1) by (rule stat_mkdir_p_keeps)
  have d1: "stat fs1 destPath = Inl ENOENT"
    using assms(2) mk by (rule stat_mkdir_p_parent_ENOENT)
  have p1: "stat fs1 (dirname destPath) = Inr Dir"
    using mk by (rule stat_mkdir_p_self)
  let ?fs2 = "AList.update destPath (File c) fs1"
  have cp: "copyFile fs1 source destPath = Inr ?fs2"
    using s1 d1 p1 by (rule copyFile_new)
  have run: "onError ENOENT source destPath fs = (?fs2, [Copied source destPath])"
    using mk cp by (simp add: onError_def)
  have dirs: "stat ?fs2 q = Inr Dir" if "prefix q (dirname destPath)" for q
  proof -
    have "0 < length destPath" using ne by simp
    moreover have "length q \<le> length destPath - 1"
      using that prefix_length_le [of q "dirname destPath"] by (simp add: dirname_def)
    ultimately have "length q < length destPath" by arith
    then have "q \<noteq> destPath" "\<not> strict_prefix destPath q"
      by (auto dest: prefix_length_le simp: strict_prefix_def)
    then have "stat ?fs2 q = stat fs1 q"
      by (rule stat_update_other)
    with stat_mkdir_p_prefix [OF mk that] show ?thesis by simp
  qed
  have frame: "node_at ?fs2 q = node_at fs q" if "\<not> prefix q destPath" for q
  proof -
    from that have "q \<noteq> destPath" by auto
    then have "node_at ?fs2 q = node_at fs1 q"
      by (simp add: node_at_update) (simp add: node_at_def)
    moreover have "\<not> prefix q (dirname destPath)"
      using that pp by (auto intro: prefix_order.trans)
    ultimately show ?thesis
      by (simp add: node_at_mkdir_p [OF mk])
  qed
  from run dirs frame show ?thesis by blast
qed

lemma copyItem_file:
  "stat fs source = Inr (File c) \<Longrightarrow>
     copyItem (Suc fuel) source destination dp ht fl cr cd fs
       = Some (copyFileItem source destination fl cr fs)"
  by simp

lemmas eval_fs = stat_def access_def ancestors_def is_file_at_def node_at_def join_def
  basename_def dirname_def too_long_def path_max_def

section \<open>The conflict policies on one file\<close>

text \<open>
  C9. Under the \<open>skip\<close> policy, when the effective destination already is a file, the
  call takes no file system action: the file system after the call is the one before
  it, whatever the bytes of the source, so the old content stays and no file is new.
  The only event is \<open>Skipped\<close>.
\<close>

theorem skip_takes_no_action:
  assumes "stat fs source = Inr (File c)"
    and "stat fs (if fl then join destination (basename source) else destination) = Inr (File old)"
  shows "copyItem (Suc fuel) source destination dp ht fl ''skip'' cd fs
           = Some (fs, [Skipped source
                          (if fl then join destination (basename source) else destination)])"
  using assms by (simp add: copyFileItem_def)

theorem skip_takes_no_action_witness:
  "stat fs_skip [''src'', ''file1.txt''] = Inr (File ''File 1 content'')
   \<and> stat fs_skip (join [''dist''] (basename [''src'', ''file1.txt''])) = Inr (File ''Modified content'')
   \<and> copyItem (Suc 0) [''src'', ''file1.txt''] [''dist''] 0 0 True ''skip'' 0 fs_skip
       = Some (fs_skip, [Skipped [''src'', ''file1.txt''] [''dist'', ''file1.txt'']])"
  using skip_takes_no_action [of fs_skip "[''src'', ''file1.txt'']" "''File 1 content''"
      True "[''dist'']" "''Modified content''" 0 0 0 0]
  by (simp add: fs_skip_def eval_fs)

text \<open>
  C8. For a source file whose effective destination \<open>destPath\<close> does not exist
  (\<open>fs.stat\<close> throws \<open>ENOENT\<close>), the call copies for every value of
  \<open>conflictResolution\<close>, also one outside \<open>overwrite\<close>, \<open>skip\<close>, \<open>rename\<close>: afterwards
  \<open>destPath\<close> holds the bytes of the source, its parent and every ancestor of the parent
  is a directory, and no entry other than \<open>destPath\<close> and its ancestors has changed. The
  policy is looked at only when \<open>destPath\<close> is a file: otherwise two policies give the same run,
  and the unknown-policy error is reported only when \<open>destPath\<close> is a file.
\<close>

theorem absent_destination_copied_under_any_policy:
  assumes "stat fs source = Inr (File c)"
    and "destPath = (if fl then join destination (basename source) else destination)"
  shows "(stat fs destPath = Inl ENOENT \<longrightarrow>
            (\<exists>fs'. copyItem (Suc fuel) source destination dp ht fl cr cd fs
                     = Some (fs', [Copied source destPath])
                  \<and> stat fs' destPath = Inr (File c)
                  \<and> stat fs' (dirname destPath) = Inr Dir
                  \<and> (\<forall>q. prefix q (dirname destPath) \<longrightarrow> stat fs' q = Inr Dir)
                  \<and> (\<forall>q. \<not> prefix q destPath \<longrightarrow> node_at fs' q = node_at fs q)))
       \<and> ((\<forall>old. stat fs destPath \<noteq> Inr (File old)) \<longrightarrow>
            copyItem (Suc fuel) source destination dp ht fl cr cd fs
              = copyItem (Suc fuel) source destination dp ht fl cr' cd fs)
       \<and> (\<forall>fs' evs x.
            copyItem (Suc fuel) source destination dp ht fl cr cd fs = Some (fs', evs)
            \<and> Failed source (UnknownStrategy x) \<in> set evs
            \<longrightarrow> (\<exists>old. stat fs destPath = Inr (File old)))"
proof (intro conjI impI allI)
  assume ne: "stat fs destPath = Inl ENOENT"
  from onError_ENOENT [OF assms(1) ne] obtain fs' where
    run: "onError ENOENT source destPath fs = (fs', [Copied source destPath])"
    and wr: "stat fs' destPath = Inr (File c)" "stat fs' (dirname destPath) = Inr Dir"
    by blast
  from onError_ENOENT_parents [OF assms(1) ne] run
  have dirs: "\<forall>q. prefix q (dirname destPath) \<longrightarrow> stat fs' q = Inr Dir"
    and frame: "\<forall>q. \<not> prefix q destPath \<longrightarrow> node_at fs' q = node_at fs q"
    by auto
  have "copyItem (Suc fuel) source destination dp ht fl cr cd fs
          = Some (fs', [Copied source destPath])"
    using assms ne run by (simp add: copyFileItem_def Let_def)
  with wr dirs frame
  show "\<exists>fs'. copyItem (Suc fuel) source destination dp ht fl cr cd fs
                 = Some (fs', [Copied source destPath])
              \<and> stat fs' destPath = Inr (File c)
              \<and> stat fs' (dirname destPath) = Inr Dir
              \<and> (\<forall>q. prefix q (dirname destPath) \<longrightarrow> stat fs' q = Inr Dir)
              \<and> (\<forall>q. \<not> prefix q destPath \<longrightarrow> node_at fs' q = node_at fs q)"
    by blast
next
  assume "\<forall>old. stat fs destPath \<noteq> Inr (File old)"
  then show "copyItem (Suc fuel) source destination dp ht fl cr cd fs
              = copyItem (Suc fuel) source destination dp ht fl cr' cd fs"
    using assms
    by (cases "stat fs destPath")
       (auto simp: copyFileItem_def Let_def split: node.splits)
next
  fix fs' evs x
  assume a: "copyItem (Suc fuel) source destination dp ht fl cr cd fs = Some (fs', evs)
             \<and> Failed source (UnknownStrategy x) \<in> set evs"
  show "\<exists>old. stat fs destPath = Inr (File old)"
  proof (cases "stat fs destPath")
    case (Inl e)
    then consider "e = ENOENT" | "e = ENOTDIR" | "e = ENAMETOOLONG"
      using stat_Inl_cases [of fs destPath e] by blast
    then show ?thesis
    proof cases
      case 1
      with Inl onError_ENOENT [OF assms(1), of destPath] a assms show ?thesis
        by (auto simp: copyFileItem_def Let_def)
    next
      case 2
      with Inl a assms show ?thesis
        by (auto simp: copyFileItem_def Let_def onError_def)
    next
      case 3
      with Inl a assms show ?thesis
        by (auto simp: copyFileItem_def Let_def onError_def)
    qed
  next
    case (Inr n)
    then show ?thesis
      using a assms
      by (cases n) (auto simp: copyFileItem_def Let_def onError_def split: sum.splits)
  qed
qed

theorem absent_destination_copied_under_any_policy_witness:
  "stat fs_skip [''src'', ''file1.txt''] = Inr (File ''File 1 content'')
   \<and> stat fs_skip [''new'', ''dir'', ''file1.txt''] = Inl ENOENT
   \<and> stat fs_skip [''new''] = Inl ENOENT
   \<and> (\<exists>fs'. copyItem (Suc 0) [''src'', ''file1.txt''] [''new'', ''dir''] 0 0 True ''bogus'' 0 fs_skip
                = Some (fs', [Copied [''src'', ''file1.txt''] [''new'', ''dir'', ''file1.txt'']])
             \<and> stat fs' [''new'', ''dir'', ''file1.txt''] = Inr (File ''File 1 content'')
             \<and> stat fs' [''new'', ''dir''] = Inr Dir
             \<and> stat fs' [''new''] = Inr Dir
             \<and> node_at fs' [''dist'', ''file1.txt''] = Some (File ''Modified content''))"
proof -
  have h1: "stat fs_skip [''src'', ''file1.txt''] = Inr (File ''File 1 content'')"
    by (simp add: fs_skip_def eval_fs)
  have h2: "stat fs_skip [''new'', ''dir'', ''file1.txt''] = Inl ENOENT"
    by (simp add: fs_skip_def eval_fs)
  have h3: "stat fs_skip [''new''] = Inl ENOENT"
    by (simp add: fs_skip_def eval_fs)
  have h0: "[''new'', ''dir'', ''file1.txt'']
      = (if True then join [''new'', ''dir''] (basename [''src'', ''file1.txt''])
         else [''new'', ''dir''])"
    by (simp add: join_def basename_def)
  from absent_destination_copied_under_any_policy [OF h1 h0, of 0 0 0 "''bogus''" 0] h2
  obtain fs' where
    run: "copyItem (Suc 0) [''src'', ''file1.txt''] [''new'', ''dir''] 0 0 True ''bogus'' 0 fs_skip
            = Some (fs', [Copied [''src'', ''file1.txt''] [''new'', ''dir'', ''file1.txt'']])"
    and wr: "stat fs' [''new'', ''dir'', ''file1.txt''] = Inr (File ''File 1 content'')"
    and dirs: "\<forall>q. prefix q (dirname [''new'', ''dir'', ''file1.txt'']) \<longrightarrow> stat fs' q = Inr Dir"
    and frame: "\<forall>q. \<not> prefix q [''new'', ''dir'', ''file1.txt'']
                  \<longrightarrow> node_at fs' q = node_at fs_skip q"
    by blast
  have d1: "stat fs' [''new'', ''dir''] = Inr Dir" and d2: "stat fs' [''new''] = Inr Dir"
    using dirs by (simp_all add: dirname_def)
  have "node_at fs' [''dist'', ''file1.txt''] = node_at fs_skip [''dist'', ''file1.txt'']"
    using frame by simp
  then have f: "node_at fs' [''dist'', ''file1.txt''] = Some (File ''Modified content'')"
    by (simp add: fs_skip_def node_at_def)
  from h1 h2 h3 run wr d1 d2 f show ?thesis by blast
qed

text \<open>
  C7. A file whose effective destination is a directory, a file whose destination (a
  path within the length limit) lies below a file, so that a directory would have to be
  made where the file is, and a directory whose destination is a file (without
  \<open>flatten\<close>, at a depth the bounds let in): each call reports \<open>Failed\<close> for its source
  and returns the file system as it was.
\<close>

theorem kind_conflict_fails_without_change:
  "(stat fs source = Inr (File c)
      \<and> stat fs (if fl then join destination (basename source) else destination) = Inr Dir
    \<longrightarrow> copyItem (Suc fuel) source destination dp ht fl cr cd fs
          = Some (fs, [Failed source (FileOverDir source
                         (if fl then join destination (basename source) else destination))]))
   \<and> (stat fs source = Inr (File c)
      \<and> \<not> too_long (if fl then join destination (basename source) else destination)
      \<and> (\<exists>q. strict_prefix q (if fl then join destination (basename source) else destination)
               \<and> is_file_at fs q)
    \<longrightarrow> copyItem (Suc fuel) source destination dp ht fl cr cd fs
          = Some (fs, [Failed source ENOTDIR]))
   \<and> (stat fs source = Inr Dir \<and> \<not> (0 < dp \<and> dp \<le> cd) \<and> \<not> (0 < ht \<and> ht \<le> cd)
      \<and> stat fs destination = Inr (File c)
    \<longrightarrow> copyItem (Suc fuel) source destination dp ht False cr cd fs
          = Some (fs, [Listed source cd, Failed source (DirOverFile destination)]))"
proof (intro conjI impI)
  assume "stat fs source = Inr (File c)
      \<and> stat fs (if fl then join destination (basename source) else destination) = Inr Dir"
  then show "copyItem (Suc fuel) source destination dp ht fl cr cd fs
          = Some (fs, [Failed source (FileOverDir source
                         (if fl then join destination (basename source) else destination))])"
    by (simp add: copyFileItem_def onError_def)
next
  assume a: "stat fs source = Inr (File c)
      \<and> \<not> too_long (if fl then join destination (basename source) else destination)
      \<and> (\<exists>q. strict_prefix q (if fl then join destination (basename source) else destination)
               \<and> is_file_at fs q)"
  then have "stat fs (if fl then join destination (basename source) else destination) = Inl ENOTDIR"
    unfolding stat_def set_ancestors by auto
  with a show "copyItem (Suc fuel) source destination dp ht fl cr cd fs
          = Some (fs, [Failed source ENOTDIR])"
    by (simp add: copyFileItem_def onError_def)
next
  assume a: "stat fs source = Inr Dir \<and> \<not> (0 < dp \<and> dp \<le> cd) \<and> \<not> (0 < ht \<and> ht \<le> cd)
      \<and> stat fs destination = Inr (File c)"
  then obtain items where "readdir fs source = Inr items"
    using readdir_of_dir by blast
  with a show "copyItem (Suc fuel) source destination dp ht False cr cd fs
          = Some (fs, [Listed source cd, Failed source (DirOverFile destination)])"
    by (auto simp: ensureDir_def)
qed

theorem kind_conflict_fails_without_change_witness:
  "stat fs_conflict [''src'', ''folder1'', ''file3.txt''] = Inr (File ''File 3 content'')
   \<and> stat fs_conflict [''dist'', ''file3.txt''] = Inr Dir
   \<and> copyItem (Suc 0) [''src'', ''folder1'', ''file3.txt''] [''dist'', ''file3.txt''] 0 0 False
         ''overwrite'' 0 fs_conflict
       = Some (fs_conflict, [Failed [''src'', ''folder1'', ''file3.txt'']
                  (FileOverDir [''src'', ''folder1'', ''file3.txt''] [''dist'', ''file3.txt''])])
   \<and> \<not> too_long [''dist'', ''folder1'', ''file3.txt'']
   \<and> strict_prefix [''dist'', ''folder1''] [''dist'', ''folder1'', ''file3.txt'']
   \<and> is_file_at fs_conflict [''dist'', ''folder1'']
   \<and> copyItem (Suc 0) [''src'', ''folder1'', ''file3.txt''] [''dist'', ''folder1'', ''file3.txt'']
         0 0 False ''overwrite'' 0 fs_conflict
       = Some (fs_conflict, [Failed [''src'', ''folder1'', ''file3.txt''] ENOTDIR])
   \<and> stat fs_conflict [''src'', ''folder1''] = Inr Dir
   \<and> stat fs_conflict [''dist'', ''folder1''] = Inr (File ''This is a file'')
   \<and> copyItem (Suc 0) [''src'', ''folder1''] [''dist'', ''folder1''] 0 0 False ''overwrite'' 0
         fs_conflict
       = Some (fs_conflict, [Listed [''src'', ''folder1''] 0,
                  Failed [''src'', ''folder1''] (DirOverFile [''dist'', ''folder1''])])"
proof -
  have h1: "stat fs_conflict [''src'', ''folder1'', ''file3.txt''] = Inr (File ''File 3 content'')"
    and h2: "stat fs_conflict [''dist'', ''file3.txt''] = Inr Dir"
    and h3: "strict_prefix [''dist'', ''folder1''] [''dist'', ''folder1'', ''file3.txt'']"
    and h4: "is_file_at fs_conflict [''dist'', ''folder1'']"
    and h5: "stat fs_conflict [''src'', ''folder1''] = Inr Dir"
    and h6: "stat fs_conflict [''dist'', ''folder1''] = Inr (File ''This is a file'')"
    and h7: "\<not> too_long [''dist'', ''folder1'', ''file3.txt'']"
    by (simp_all add: fs_conflict_def eval_fs strict_prefix_def)
  note k = kind_conflict_fails_without_change
  have a: "copyItem (Suc 0) [''src'', ''folder1'', ''file3.txt''] [''dist'', ''file3.txt''] 0 0 False
         ''overwrite'' 0 fs_conflict
       = Some (fs_conflict, [Failed [''src'', ''folder1'', ''file3.txt'']
                  (FileOverDir [''src'', ''folder1'', ''file3.txt''] [''dist'', ''file3.txt''])])"
    using k [of fs_conflict "[''src'', ''folder1'', ''file3.txt'']" "''File 3 content''" False
        "[''dist'', ''file3.txt'']" 0 0 0 "''overwrite''" 0] h1 h2
    by simp
  have b: "copyItem (Suc 0) [''src'', ''folder1'', ''file3.txt''] [''dist'', ''folder1'', ''file3.txt'']
         0 0 False ''overwrite'' 0 fs_conflict
       = Some (fs_conflict, [Failed [''src'', ''folder1'', ''file3.txt''] ENOTDIR])"
    using k [of fs_conflict "[''src'', ''folder1'', ''file3.txt'']" "''File 3 content''" False
        "[''dist'', ''folder1'', ''file3.txt'']" 0 0 0 "''overwrite''" 0] h1 h3 h4 h7
    by auto
  have c: "copyItem (Suc 0) [''src'', ''folder1''] [''dist'', ''folder1''] 0 0 False ''overwrite'' 0
         fs_conflict
       = Some (fs_conflict, [Listed [''src'', ''folder1''] 0,
                  Failed [''src'', ''folder1''] (DirOverFile [''dist'', ''folder1''])])"
    using k [of fs_conflict "[''src'', ''folder1'']" "''This is a file''" False
        "[''dist'', ''folder1'']" 0 0 0 "''overwrite''" 0] h5 h6
    by simp
  from h1 h2 h3 h4 h5 h6 h7 a b c show ?thesis by blast
qed

section \<open>The depth and height bounds\<close>

lemma copyItem_bounds_commute:
  "copyItem fuel source destination dp ht fl cr cd fs
     = copyItem fuel source destination ht dp fl cr cd fs"
proof (induction fuel arbitrary: source destination cd fs)
  case 0
  show ?case by simp
next
  case (Suc fuel)
  have loop: "(\<lambda>item. copyItem fuel (join source [item]) (X item) dp ht fl cr (cd + 1))
            = (\<lambda>item. copyItem fuel (join source [item]) (X item) ht dp fl cr (cd + 1))" for X
    by (intro ext) (rule Suc.IH)
  show ?case
    unfolding copyItem.simps
    by (subst loop) (auto split: sum.splits node.splits)
qed

text \<open>
  C5. \<open>height\<close> is compared with the same counter \<open>currentDepth\<close> as \<open>depth\<close>, in a
  second test of the same shape: a run with \<open>height = h\<close> and \<open>depth = 0\<close> returns the
  same file system and the same events as the run with \<open>depth = h\<close> and \<open>height = 0\<close>,
  for \<open>copyItem\<close> at any source, destination, counter and file system, and for a whole
  task of \<open>copy\<close>.
\<close>

theorem height_alone_is_depth_alone:
  "copyItem fuel source destination 0 h fl cr cd fs
     = copyItem fuel source destination h 0 fl cr cd fs
   \<and> copyTask fuel (t\<lparr>depth := Some 0, height := Some h\<rparr>) fs
     = copyTask fuel (t\<lparr>depth := Some h, height := Some 0\<rparr>) fs"
proof
  show "copyItem fuel source destination 0 h fl cr cd fs
     = copyItem fuel source destination h 0 fl cr cd fs"
    by (rule copyItem_bounds_commute)
  have L: "(\<lambda>source. copyItem fuel source (X source) 0 h fl' cr' 0)
      = (\<lambda>source. copyItem fuel source (X source) h 0 fl' cr' 0)" for X fl' cr'
    by (intro ext) (rule copyItem_bounds_commute)
  show "copyTask fuel (t\<lparr>depth := Some 0, height := Some h\<rparr>) fs
     = copyTask fuel (t\<lparr>depth := Some h, height := Some 0\<rparr>) fs"
    by (simp add: copyTask_def orDefault_def Let_def L copyItem_bounds_commute [of _ _ _ 0 h]
             split: sources.splits cong: if_cong)
qed

section \<open>What a run can do\<close>

lemma forEach_rel:
  assumes "forEach f xs fs = Some (fs', evs)"
    and "\<And>a. R a a []"
    and "\<And>a b c e1 e2. R a b e1 \<Longrightarrow> R b c e2 \<Longrightarrow> R a c (e1 @ e2)"
    and "\<And>x fs0 fs1 e1. x \<in> set xs \<Longrightarrow> f x fs0 = Some (fs1, e1) \<Longrightarrow> R fs0 fs1 e1"
  shows "R fs fs' evs"
  using assms(1,4)
proof (induction xs arbitrary: fs fs' evs)
  case Nil
  then show ?case using assms(2) by simp
next
  case (Cons x xs)
  from Cons.prems(1) obtain fs1 e1 fs2 e2 where
    a: "f x fs = Some (fs1, e1)" and b: "forEach f xs fs1 = Some (fs2, e2)"
    and c: "fs' = fs2" "evs = e1 @ e2"
    by (auto split: option.splits)
  have r1: "R fs fs1 e1" using a Cons.prems(2) [of x] by simp
  have r2: "R fs1 fs2 e2"
  proof (rule Cons.IH [OF b])
    fix y fs0 fs1' e1'
    assume "y \<in> set xs" "f y fs0 = Some (fs1', e1')"
    then show "R fs0 fs1' e1'" using Cons.prems(2) [of y] by simp
  qed
  show ?case unfolding c by (rule assms(3) [OF r1 r2])
qed

lemma forEach_events:
  assumes "forEach f xs fs = Some (fs', evs)" and "ev \<in> set evs"
  obtains x fs0 fs1 e1 where "x \<in> set xs" "f x fs0 = Some (fs1, e1)" "ev \<in> set e1"
  using assms
proof (induction xs arbitrary: fs fs' evs thesis)
  case Nil
  then show ?case by simp
next
  case (Cons x xs)
  from Cons.prems(2) obtain fs1 e1 fs2 e2 where
    a: "f x fs = Some (fs1, e1)" and b: "forEach f xs fs1 = Some (fs2, e2)"
    and c: "fs' = fs2" "evs = e1 @ e2"
    by (auto split: option.splits)
  from Cons.prems(3) c consider "ev \<in> set e1" | "ev \<in> set e2" by auto
  then show ?case
  proof cases
    case 1
    with a Cons.prems(1) [of x] show ?thesis by simp
  next
    case 2
    show ?thesis
    proof (rule Cons.IH [OF _ b 2])
      fix y fs0 fs1' e1'
      assume "y \<in> set xs" "f y fs0 = Some (fs1', e1')" "ev \<in> set e1'"
      then show thesis using Cons.prems(1) [of y] by auto
    qed
  qed
qed

lemma copyItem_dir_loop:
  assumes "stat fs source = Inr Dir" and "readdir fs source = Inr items"
    and "\<not> (0 < dp \<and> dp \<le> cd)" and "\<not> (0 < ht \<and> ht \<le> cd)" and "\<not> (items = [] \<and> fl)"
    and "if fl then fs1 = fs else ensureDir fs destination = Inr fs1"
  shows "copyItem (Suc fuel) source destination dp ht fl cr cd fs
    = (case forEach (\<lambda>item. copyItem fuel (source @ [item]) (destination @ [item])
                        dp ht fl cr (cd + 1)) items fs1 of
         None \<Rightarrow> None
       | Some (fs2, evs) \<Rightarrow> Some (fs2, Listed source cd # evs))"
  using assms by (cases fl) (auto simp: join_def basename_def)

lemma copyItem_dir_stop:
  assumes "stat fs source = Inr Dir" and "(0 < dp \<and> dp \<le> cd) \<or> (0 < ht \<and> ht \<le> cd)"
  shows "copyItem (Suc fuel) source destination dp ht fl cr cd fs = Some (fs, [])"
  using assms by auto

lemma copyItem_dir_empty:
  assumes "stat fs source = Inr Dir" and "readdir fs source = Inr []" and "fl"
    and "\<not> (0 < dp \<and> dp \<le> cd)" and "\<not> (0 < ht \<and> ht \<le> cd)"
  shows "copyItem (Suc fuel) source destination dp ht fl cr cd fs
           = Some (fs, [Listed source cd])"
  using assms by auto

lemma copyItem_dir_nodir:
  assumes "stat fs source = Inr Dir" and "readdir fs source = Inr items" and "\<not> fl"
    and "\<not> (0 < dp \<and> dp \<le> cd)" and "\<not> (0 < ht \<and> ht \<le> cd)"
    and "ensureDir fs destination = Inl e"
  shows "copyItem (Suc fuel) source destination dp ht fl cr cd fs
           = Some (fs, [Listed source cd, Failed source e])"
  using assms by auto

lemma copyItem_nostat:
  "stat fs source = Inl e \<Longrightarrow>
     copyItem (Suc fuel) source destination dp ht fl cr cd fs = Some (fs, [Failed source e])"
  by simp

lemma copyItem_Suc_cases:
  assumes "copyItem (Suc fuel) source destination dp ht fl cr cd fs = Some (fs', evs)"
  obtains
    (nostat) e where "stat fs source = Inl e" "fs' = fs" "evs = [Failed source e]"
  | (regular) c where "stat fs source = Inr (File c)"
      "copyFileItem source destination fl cr fs = (fs', evs)"
  | (stop) "stat fs source = Inr Dir" "fs' = fs" "evs = []"
      "(0 < dp \<and> dp \<le> cd) \<or> (0 < ht \<and> ht \<le> cd)"
  | (empty) "stat fs source = Inr Dir" "fs' = fs" "evs = [Listed source cd]"
      "\<not> (0 < dp \<and> dp \<le> cd)" "\<not> (0 < ht \<and> ht \<le> cd)" "readdir fs source = Inr []" "fl"
  | (nodir) e where "stat fs source = Inr Dir" "fs' = fs"
      "evs = [Listed source cd, Failed source e]" "ensureDir fs destination = Inl e" "\<not> fl"
      "\<not> (0 < dp \<and> dp \<le> cd)" "\<not> (0 < ht \<and> ht \<le> cd)"
  | (loop) items fs1 evs1 where "stat fs source = Inr Dir" "readdir fs source = Inr items"
      "if fl then fs1 = fs else ensureDir fs destination = Inr fs1"
      "forEach (\<lambda>item. copyItem fuel (source @ [item]) (destination @ [item])
                  dp ht fl cr (cd + 1)) items fs1 = Some (fs', evs1)"
      "evs = Listed source cd # evs1"
      "\<not> (0 < dp \<and> dp \<le> cd)" "\<not> (0 < ht \<and> ht \<le> cd)" "\<not> (items = [] \<and> fl)"
proof (cases "stat fs source")
  case (Inl e)
  with assms have e: "fs' = fs" "evs = [Failed source e]"
    unfolding copyItem_nostat [OF Inl] by simp_all
  show ?thesis by (rule nostat [OF Inl e])
next
  case (Inr n)
  show ?thesis
  proof (cases n)
    case (File c)
    with Inr have st: "stat fs source = Inr (File c)" by simp
    with assms have e: "copyFileItem source destination fl cr fs = (fs', evs)"
      unfolding copyItem_file [OF st] by simp
    show ?thesis by (rule regular [OF st e])
  next
    case Dir
    with Inr have d: "stat fs source = Inr Dir" by simp
    obtain items where rd: "readdir fs source = Inr items"
      using readdir_of_dir [OF d] by blast
    show ?thesis
    proof (cases "(0 < dp \<and> dp \<le> cd) \<or> (0 < ht \<and> ht \<le> cd)")
      case True
      from assms have e: "fs' = fs" "evs = []"
        unfolding copyItem_dir_stop [OF d True] by simp_all
      show ?thesis by (rule stop [OF d e True])
    next
      case False
      then have b1: "\<not> (0 < dp \<and> dp \<le> cd)" and b2: "\<not> (0 < ht \<and> ht \<le> cd)"
        by blast+
      show ?thesis
      proof (cases "items = [] \<and> fl")
        case True
        then have rd0: "readdir fs source = Inr []" and fl: fl
          using rd by simp_all
        from assms have e: "fs' = fs" "evs = [Listed source cd]"
          unfolding copyItem_dir_empty [OF d rd0 fl b1 b2] by simp_all
        show ?thesis by (rule empty [OF d e b1 b2 rd0 fl])
      next
        case ne: False
        show ?thesis
        proof (cases fl)
          case True
          have i: "if fl then fs = fs else ensureDir fs destination = Inr fs"
            using True by simp
          from assms obtain evs1 where e:
            "forEach (\<lambda>item. copyItem fuel (source @ [item]) (destination @ [item])
                  dp ht fl cr (cd + 1)) items fs = Some (fs', evs1)"
            "evs = Listed source cd # evs1"
            unfolding copyItem_dir_loop [OF d rd b1 b2 ne i]
            by (auto split: option.splits)
          show ?thesis by (rule loop [OF d rd i e b1 b2 ne])
        next
          case nf: False
          show ?thesis
          proof (cases "ensureDir fs destination")
            case (Inl e)
            from assms have e: "fs' = fs" "evs = [Listed source cd, Failed source e]"
              unfolding copyItem_dir_nodir [OF d rd nf b1 b2 Inl] by simp_all
            show ?thesis by (rule nodir [OF d e Inl nf b1 b2])
          next
            case (Inr fs1)
            then have i: "if fl then fs1 = fs else ensureDir fs destination = Inr fs1"
              using nf by simp
            from assms obtain evs1 where e:
              "forEach (\<lambda>item. copyItem fuel (source @ [item]) (destination @ [item])
                    dp ht fl cr (cd + 1)) items fs1 = Some (fs', evs1)"
              "evs = Listed source cd # evs1"
              unfolding copyItem_dir_loop [OF d rd b1 b2 ne i]
              by (auto split: option.splits)
            show ?thesis by (rule loop [OF d rd i e b1 b2 ne])
          qed
        qed
      qed
    qed
  qed
qed

lemma onError_shape:
  assumes "onError err source destPath fs = (fs', evs)"
  shows "\<exists>fs1. (fs1 = fs \<or> mkdir_p fs (dirname destPath) = Inr fs1)
          \<and> ((fs' = fs1 \<and> (\<exists>e. evs = [Failed source e]))
             \<or> (\<exists>c. fs' = AList.update destPath (File c) fs1
                   \<and> evs = [Copied source destPath]))"
proof (cases "err = ENOENT")
  case False
  with assms show ?thesis by (auto simp: onError_def)
next
  case True
  show ?thesis
  proof (cases "mkdir_p fs (dirname destPath)")
    case (Inl e)
    with True assms show ?thesis by (auto simp: onError_def)
  next
    case (Inr fs1)
    show ?thesis
    proof (cases "copyFile fs1 source destPath")
      case (Inl e)
      with True Inr assms have "fs' = fs1" "evs = [Failed source e]"
        by (auto simp: onError_def)
      with Inr show ?thesis by blast
    next
      case cp: (Inr fs2)
      with True Inr assms have e: "fs' = fs2" "evs = [Copied source destPath]"
        by (auto simp: onError_def)
      from copyFile_Inr_D [OF cp] obtain c where "fs2 = AList.update destPath (File c) fs1"
        by blast
      with e Inr show ?thesis by blast
    qed
  qed
qed

lemma copyFileItem_shape:
  assumes "copyFileItem source destination fl cr fs = (fs', evs)"
    and "destPath = (if fl then destination @ basename source else destination)"
  shows "\<exists>fs1. (fs1 = fs \<or> mkdir_p fs (dirname destPath) = Inr fs1)
          \<and> ((fs' = fs1 \<and> ((\<exists>e. evs = [Failed source e]) \<or> evs = [Skipped source destPath]))
             \<or> (\<exists>t c ev. fs' = AList.update t (File c) fs1 \<and> evs = [ev]
                   \<and> writes ev = Some (source, t)
                   \<and> (t = destPath \<or> t = getUniqueFileName fs destPath)))"
proof -
  have oe: ?thesis if "onError err source destPath fs = (fs', evs)" for err
    using onError_shape [OF that] by fastforce
  have dp: "(if fl then join destination (basename source) else destination) = destPath"
    using assms(2) by (simp add: join_def)
  show ?thesis
  proof (cases "stat fs destPath")
    case (Inl err)
    with assms(1) dp show ?thesis by (intro oe [of err]) (simp add: copyFileItem_def)
  next
    case (Inr n)
    show ?thesis
    proof (cases n)
      case Dir
      with Inr assms(1) dp show ?thesis
        by (intro oe [of "FileOverDir source destPath"]) (simp add: copyFileItem_def)
    next
      case (File old)
      note st = Inr [unfolded File]
      consider "cr = ''overwrite''" | "cr \<noteq> ''overwrite''" "cr = ''skip''"
        | "cr \<noteq> ''overwrite''" "cr \<noteq> ''skip''" "cr = ''rename''"
        | "cr \<noteq> ''overwrite''" "cr \<noteq> ''skip''" "cr \<noteq> ''rename''"
        by blast
      then show ?thesis
      proof cases
        case 1
        show ?thesis
        proof (cases "copyFile fs source destPath")
          case (Inl err)
          with 1 st assms(1) dp show ?thesis
            by (intro oe [of err]) (simp add: copyFileItem_def)
        next
          case cp: (Inr fs2)
          with 1 st assms(1) dp have e: "fs' = fs2" "evs = [Overwritten source destPath]"
            by (simp_all add: copyFileItem_def)
          from copyFile_Inr_D [OF cp] obtain c where "fs2 = AList.update destPath (File c) fs"
            by blast
          with e show ?thesis by auto
        qed
      next
        case 2
        with st assms(1) dp have "fs' = fs" "evs = [Skipped source destPath]"
          by (simp_all add: copyFileItem_def)
        then show ?thesis by auto
      next
        case 3
        let ?u = "getUniqueFileName fs destPath"
        show ?thesis
        proof (cases "copyFile fs source ?u")
          case (Inl err)
          with 3 st assms(1) dp show ?thesis
            by (intro oe [of err]) (simp add: copyFileItem_def)
        next
          case cp: (Inr fs2)
          with 3 st assms(1) dp have e: "fs' = fs2" "evs = [Renamed source ?u]"
            by (simp_all add: copyFileItem_def)
          from copyFile_Inr_D [OF cp] obtain c where "fs2 = AList.update ?u (File c) fs"
            by blast
          with e show ?thesis by auto
        qed
      next
        case 4
        with st assms(1) dp show ?thesis
          by (intro oe [of "UnknownStrategy cr"]) (simp add: copyFileItem_def)
      qed
    qed
  qed
qed

lemma event_ok_child:
  assumes "event_ok (source @ [item]) (cd + 1) dp ht ev"
    and "\<not> (0 < dp \<and> dp \<le> cd)" and "\<not> (0 < ht \<and> ht \<le> cd)"
  shows "event_ok source cd dp ht ev"
proof -
  have lv: "nesting_level (source @ [item]) p = nesting_level source p - 1" for p
    by (simp add: nesting_level_def)
  have l1: "nesting_level source (source @ [item]) = 1"
    by (simp add: nesting_level_def)
  have pf: "prefix (source @ [item]) p \<Longrightarrow> prefix source p" for p
    by (rule append_prefixD)
  show ?thesis
  proof (cases ev)
    case (Listed p c)
    with assms show ?thesis by (auto simp: event_ok_def lv pf)
  next
    case (Copied s t)
    with assms show ?thesis
      by (cases "s = source @ [item]") (auto simp: event_ok_def lv l1 pf)
  next
    case (Overwritten s t)
    with assms show ?thesis
      by (cases "s = source @ [item]") (auto simp: event_ok_def lv l1 pf)
  next
    case (Renamed s t)
    with assms show ?thesis
      by (cases "s = source @ [item]") (auto simp: event_ok_def lv l1 pf)
  next
    case (Skipped s t)
    with assms show ?thesis by (auto simp: event_ok_def pf)
  next
    case (Failed s e)
    with assms show ?thesis by (auto simp: event_ok_def pf)
  next
    case Done
    with assms show ?thesis by (simp add: event_ok_def)
  qed
qed

lemma copyFileItem_events:
  assumes "copyFileItem source destination fl cr fs = (fs', evs)" and "ev \<in> set evs"
  shows "(\<exists>e. ev = Failed source e) \<or> (\<exists>t. ev = Skipped source t)
           \<or> (\<exists>t. writes ev = Some (source, t))"
proof -
  from copyFileItem_shape [OF assms(1) refl] obtain fs1 where
    "(fs' = fs1 \<and> ((\<exists>e. evs = [Failed source e])
          \<or> evs = [Skipped source (if fl then destination @ basename source else destination)]))
     \<or> (\<exists>t c ev. fs' = AList.update t (File c) fs1 \<and> evs = [ev]
           \<and> writes ev = Some (source, t)
           \<and> (t = (if fl then destination @ basename source else destination)
              \<or> t = getUniqueFileName fs
                    (if fl then destination @ basename source else destination)))"
    by blast
  then consider e where "evs = [Failed source e]"
    | t where "evs = [Skipped source t]"
    | t ev' where "evs = [ev']" "writes ev' = Some (source, t)"
    by blast
  then show ?thesis
  proof cases
    case 1
    with assms(2) show ?thesis by simp
  next
    case 2
    with assms(2) show ?thesis by simp
  next
    case 3
    with assms(2) show ?thesis by simp
  qed
qed

lemma event_ok_own:
  assumes "(\<exists>e. ev = Failed source e) \<or> (\<exists>t. ev = Skipped source t)
           \<or> (\<exists>t. writes ev = Some (source, t))"
  shows "event_ok source cd dp ht ev"
  using assms by (cases ev) (simp_all add: event_ok_def)

lemma copyItem_events:
  assumes "copyItem fuel source destination dp ht fl cr cd fs = Some (fs', evs)"
    and "ev \<in> set evs"
  shows "event_ok source cd dp ht ev"
  using assms
proof (induction fuel arbitrary: source destination cd fs fs' evs)
  case 0
  then show ?case by simp
next
  case (Suc fuel)
  from Suc.prems(1) show ?case
  proof (cases rule: copyItem_Suc_cases)
    case (nostat e)
    with Suc.prems(2) show ?thesis by (simp add: event_ok_def)
  next
    case (regular c)
    from copyFileItem_events [OF regular(2) Suc.prems(2)] show ?thesis
      by (rule event_ok_own)
  next
    case stop
    with Suc.prems(2) show ?thesis by simp
  next
    case empty
    with Suc.prems(2) show ?thesis
      by (auto simp: event_ok_def nesting_level_def)
  next
    case (nodir e)
    with Suc.prems(2) show ?thesis
      by (auto simp: event_ok_def nesting_level_def)
  next
    case (loop items fs1 evs1)
    from Suc.prems(2) loop(5) consider "ev = Listed source cd" | "ev \<in> set evs1"
      by auto
    then show ?thesis
    proof cases
      case 1
      with loop(6,7) show ?thesis
        by (auto simp: event_ok_def nesting_level_def)
    next
      case 2
      show ?thesis
      proof (rule forEach_events [OF loop(4) 2])
        fix item fs0 fs2 e1
        assume c: "copyItem fuel (source @ [item]) (destination @ [item]) dp ht fl cr (cd + 1) fs0
                     = Some (fs2, e1)" and e: "ev \<in> set e1"
        from c e have "event_ok (source @ [item]) (cd + 1) dp ht ev"
          by (rule Suc.IH)
        then show ?thesis using loop(6,7) by (rule event_ok_child)
      qed
    qed
  qed
qed

lemma files_from_events_refl: "files_from_events fs fs []"
  by (simp add: files_from_events_def)

lemma files_from_events_trans:
  assumes "files_from_events a b e1" and "files_from_events b c e2"
  shows "files_from_events a c (e1 @ e2)"
  unfolding files_from_events_def
proof (intro allI impI)
  fix p x
  assume "node_at c p = Some (File x)"
  with assms(2) consider "node_at b p = Some (File x)"
    | "\<exists>ev \<in> set e2. \<exists>s. writes ev = Some (s, p)"
    unfolding files_from_events_def by blast
  then show "node_at a p = Some (File x)
      \<or> (\<exists>ev \<in> set (e1 @ e2). \<exists>s. writes ev = Some (s, p))"
  proof cases
    case 1
    with assms(1) show ?thesis
      unfolding files_from_events_def by fastforce
  next
    case 2
    then show ?thesis by auto
  qed
qed

lemma files_from_events_mkdir_p:
  "mkdir_p fs d = Inr fs1 \<Longrightarrow> files_from_events fs fs1 evs"
  by (auto simp: files_from_events_def node_at_mkdir_p split: if_splits)

lemma ensureDir_shape:
  "ensureDir fs d = Inr fs1 \<Longrightarrow> fs1 = fs \<or> mkdir_p fs d = Inr fs1"
  by (auto simp: ensureDir_def split: sum.splits node.splits if_splits)

lemma files_from_events_copyFileItem:
  assumes "copyFileItem source destination fl cr fs = (fs', evs)"
  shows "files_from_events fs fs' evs"
proof -
  from copyFileItem_shape [OF assms refl] obtain fs1 where
    a: "fs1 = fs \<or> mkdir_p fs (dirname (if fl then destination @ basename source else destination))
                    = Inr fs1"
    and b: "fs' = fs1
      \<or> (\<exists>t c ev. fs' = AList.update t (File c) fs1 \<and> evs = [ev]
                    \<and> writes ev = Some (source, t))"
    by blast
  from a have 1: "files_from_events fs fs1 []"
    using files_from_events_refl files_from_events_mkdir_p by blast
  from b have 2: "files_from_events fs1 fs' evs"
    by (auto simp: files_from_events_def node_at_update split: if_splits)
  from files_from_events_trans [OF 1 2] show ?thesis by simp
qed

lemma files_from_events_Cons:
  "files_from_events fs fs' evs \<Longrightarrow> files_from_events fs fs' (ev # evs)"
  by (auto simp: files_from_events_def)

lemma files_from_events_copyItem:
  assumes "copyItem fuel source destination dp ht fl cr cd fs = Some (fs', evs)"
  shows "files_from_events fs fs' evs"
  using assms
proof (induction fuel arbitrary: source destination cd fs fs' evs)
  case 0
  then show ?case by simp
next
  case (Suc fuel)
  from Suc.prems show ?case
  proof (cases rule: copyItem_Suc_cases)
    case (nostat e)
    then show ?thesis by (simp add: files_from_events_def)
  next
    case (regular c)
    then show ?thesis by (simp add: files_from_events_copyFileItem)
  next
    case stop
    then show ?thesis by (simp add: files_from_events_def)
  next
    case empty
    then show ?thesis by (simp add: files_from_events_def)
  next
    case (nodir e)
    then show ?thesis by (simp add: files_from_events_def)
  next
    case (loop items fs1 evs1)
    have 1: "files_from_events fs fs1 []"
    proof (cases fl)
      case True
      with loop(3) show ?thesis by (simp add: files_from_events_refl)
    next
      case False
      with loop(3) ensureDir_shape [of fs destination fs1] show ?thesis
        using files_from_events_refl files_from_events_mkdir_p by auto
    qed
    have 2: "files_from_events fs1 fs' evs1"
    proof (rule forEach_rel [OF loop(4)])
      show "files_from_events a a []" for a by (rule files_from_events_refl)
      show "files_from_events a b e1 \<Longrightarrow> files_from_events b c e2
              \<Longrightarrow> files_from_events a c (e1 @ e2)" for a b c e1 e2
        by (rule files_from_events_trans)
      show "files_from_events fs0 fs2 e1"
        if "copyItem fuel (source @ [item]) (destination @ [item]) dp ht fl cr (cd + 1) fs0
              = Some (fs2, e1)" for item fs0 fs2 e1
        using that by (rule Suc.IH)
    qed
    from files_from_events_trans [OF 1 2] loop(5) show ?thesis
      by (simp add: files_from_events_Cons)
  qed
qed

lemmas eval_copy = copy_def copyTask_def orDefault_def readdir_def ensureDir_def mkdir_p_def
  add_dir_def copyFileItem_def onError_def copyFile_def relative_def Let_def

text \<open>
  C10. With \<open>depth > 0\<close>: a call on a directory whose counter \<open>currentDepth\<close> has
  reached \<open>depth\<close> returns at once, with no event and the file system unchanged, so the
  directory is neither listed nor recursed on; and in any run that returns, every
  directory listing happened in a call whose counter was below \<open>depth\<close>, the counter of
  the call on \<open>p\<close> being the counter of the root call plus the level of \<open>p\<close> below it.
\<close>

theorem no_descent_at_max_depth:
  assumes "0 < dp"
  shows "(stat fs source = Inr Dir \<and> dp \<le> cd \<longrightarrow>
            copyItem (Suc fuel) source destination dp ht fl cr cd fs = Some (fs, []))
       \<and> (copyItem fuel source destination dp ht fl cr cd fs = Some (fs', evs) \<longrightarrow>
            (\<forall>p c. Listed p c \<in> set evs \<longrightarrow>
               c < dp \<and> c = cd + nesting_level source p \<and> prefix source p))"
proof -
  have 1: "copyItem (Suc fuel) source destination dp ht fl cr cd fs = Some (fs, [])"
    if "stat fs source = Inr Dir \<and> dp \<le> cd"
    using that assms by (simp add: copyItem_dir_stop)
  have 2: "c < dp \<and> c = cd + nesting_level source p \<and> prefix source p"
    if "copyItem fuel source destination dp ht fl cr cd fs = Some (fs', evs)"
      and "Listed p c \<in> set evs" for p c
  proof -
    from that have "event_ok source cd dp ht (Listed p c)"
      by (rule copyItem_events)
    with assms show ?thesis
      by (simp add: event_ok_def)
  qed
  from 1 2 show ?thesis by blast
qed

theorem no_descent_at_max_depth_witness:
  "(0::int) < 1
   \<and> stat fs_tree [''a'', ''b''] = Inr Dir
   \<and> copyItem (Suc 0) [''a'', ''b''] [''out'', ''a'', ''b''] 1 0 False ''overwrite'' 1 fs_tree
       = Some (fs_tree, [])
   \<and> copyItem (Suc (Suc (Suc 0))) [''a''] [''out'', ''a''] 1 0 False ''overwrite'' 0 fs_tree
       = Some ([([''a''], Dir), ([''a'', ''x.txt''], File ''1''), ([''a'', ''b''], Dir),
                ([''a'', ''b'', ''y.txt''], File ''2''), ([''out''], Dir),
                ([''out'', ''a''], Dir), ([''out'', ''a'', ''x.txt''], File ''1'')],
               [Listed [''a''] 0, Copied [''a'', ''x.txt''] [''out'', ''a'', ''x.txt'']])
   \<and> (0::int) = 0 + nesting_level [''a''] [''a'']"
proof -
  have d: "stat fs_tree [''a'', ''b''] = Inr Dir"
    by (simp add: fs_tree_def eval_fs)
  have run: "copyItem (Suc (Suc (Suc 0))) [''a''] [''out'', ''a''] 1 0 False ''overwrite'' 0 fs_tree
       = Some ([([''a''], Dir), ([''a'', ''x.txt''], File ''1''), ([''a'', ''b''], Dir),
                ([''a'', ''b'', ''y.txt''], File ''2''), ([''out''], Dir),
                ([''out'', ''a''], Dir), ([''out'', ''a'', ''x.txt''], File ''1'')],
               [Listed [''a''] 0, Copied [''a'', ''x.txt''] [''out'', ''a'', ''x.txt'']])"
    by (simp add: fs_tree_def eval_copy eval_fs)
  have pos: "(0::int) < 1" by simp
  note w = no_descent_at_max_depth [OF pos]
  from w [of fs_tree "[''a'', ''b'']" 1 0 "[''out'', ''a'', ''b'']" 0 False "''overwrite''"] d
  have stop: "copyItem (Suc 0) [''a'', ''b''] [''out'', ''a'', ''b''] 1 0 False ''overwrite'' 1 fs_tree
       = Some (fs_tree, [])"
    by simp
  from w [of _ "[''a'']" 0 _ "[''out'', ''a'']" 0 False "''overwrite''"] run
  have "(0::int) = 0 + nesting_level [''a''] [''a'']"
    by fastforce
  with pos d stop run show ?thesis by blast
qed

lemma copyItem_writes_level:
  assumes "copyItem fuel root destination d ht fl cr 0 fs = Some (fs', evs)" and "0 < d"
    and "ev \<in> set evs" and "writes ev = Some (s, t)"
  shows "prefix root s \<and> file_level root s < d"
proof -
  from assms(1,3) have "event_ok root 0 d ht ev"
    by (rule copyItem_events)
  with assms(4,2) have "prefix root s \<and> (s = root \<or> nesting_level root s \<le> d)"
    by (cases ev) (auto simp: event_ok_def)
  then have p: "prefix root s" and l: "s = root \<or> nesting_level root s \<le> d"
    by blast+
  show ?thesis
  proof (cases "s = root")
    case True
    with assms(2) show ?thesis by (simp add: file_level_def)
  next
    case False
    from p obtain zs where zs: "s = root @ zs" by (auto simp: prefix_def)
    with False have "zs \<noteq> []" by auto
    with zs have "length root < length s" by simp
    then have "nesting_level root (dirname s) = nesting_level root s - 1"
      by (simp add: nesting_level_def dirname_def)
    with False l p show ?thesis by (simp add: file_level_def)
  qed
qed

lemma copyTask_writes_level:
  assumes "copyTask fuel t fs = Some (fs', evs)" and "0 < orDefault (depth t) 0"
    and "ev \<in> set evs" and "writes ev = Some (s, p)"
  shows "\<exists>root \<in> set (task_sources t). prefix root s \<and> file_level root s < orDefault (depth t) 0"
proof (cases "src t")
  case (Single r)
  with assms(1) copyItem_writes_level [OF _ assms(2,3,4), of fuel r] show ?thesis
    by (simp add: copyTask_def task_sources_def Let_def)
next
  case (Multi ss)
  let ?fl = "orDefault (flatten t) False"
  let ?f = "\<lambda>source. copyItem fuel source
              (if ?fl then dest t else join (dest t) (relative (dirname source) source))
              (orDefault (depth t) 0) (orDefault (height t) 0) ?fl
              (orDefault (conflictResolution t) ''overwrite'') 0"
  from assms(1) Multi have run: "forEach ?f ss fs = Some (fs', evs)"
    by (simp add: copyTask_def Let_def)
  show ?thesis
  proof (rule forEach_events [OF run assms(3)])
    fix r fs0 fs1 e1
    assume r: "r \<in> set ss" and 1: "?f r fs0 = Some (fs1, e1)" and 2: "ev \<in> set e1"
    from copyItem_writes_level [OF 1 assms(2) 2 assms(4)] r Multi show ?thesis
      by (auto simp: task_sources_def)
  qed
qed

lemma files_from_events_copyTask:
  assumes "copyTask fuel t fs = Some (fs', evs)"
  shows "files_from_events fs fs' evs"
proof (cases "src t")
  case (Single r)
  with assms show ?thesis
    by (auto simp: copyTask_def Let_def intro: files_from_events_copyItem)
next
  case (Multi ss)
  let ?fl = "orDefault (flatten t) False"
  let ?f = "\<lambda>source. copyItem fuel source
              (if ?fl then dest t else join (dest t) (relative (dirname source) source))
              (orDefault (depth t) 0) (orDefault (height t) 0) ?fl
              (orDefault (conflictResolution t) ''overwrite'') 0"
  from assms Multi have run: "forEach ?f ss fs = Some (fs', evs)"
    by (simp add: copyTask_def Let_def)
  show ?thesis
  proof (rule forEach_rel [OF run])
    show "files_from_events a a []" for a by (rule files_from_events_refl)
    show "files_from_events a b e1 \<Longrightarrow> files_from_events b c e2
            \<Longrightarrow> files_from_events a c (e1 @ e2)" for a b c e1 e2
      by (rule files_from_events_trans)
    show "files_from_events fs0 fs1 e1" if "?f r fs0 = Some (fs1, e1)" for r fs0 fs1 e1
      using that by (rule files_from_events_copyItem)
  qed
qed

text \<open>
  C2. The level of a file counts the directory levels descended from the root of the
  run to reach it (the root directory is level 0, so a file directly in it is at level
  0). With \<open>depth = d > 0\<close> a directory is listed only while its counter is below \<open>d\<close>,
  so every file a run writes is copied from a source of level below \<open>d\<close>, and every file
  of the file system after the run was there before with the same bytes or is the target
  of such a copy: no file of level \<open>d\<close> or more appears anywhere. This holds of one call
  of \<open>copyItem\<close> from a root at counter 0 and of a whole task, where the level is counted
  from the source of the task that the file lies below.
\<close>

theorem depth_bound_on_copied_files:
  assumes "0 < d"
  shows "(copyItem fuel root destination d ht fl cr 0 fs = Some (fs', evs) \<longrightarrow>
            (\<forall>ev \<in> set evs. \<forall>s p. writes ev = Some (s, p) \<longrightarrow>
               prefix root s \<and> file_level root s < d)
          \<and> (\<forall>p c. node_at fs' p = Some (File c) \<longrightarrow>
               node_at fs p = Some (File c)
               \<or> (\<exists>ev \<in> set evs. \<exists>s. writes ev = Some (s, p)
                     \<and> prefix root s \<and> file_level root s < d)))
       \<and> (orDefault (depth t) 0 = d \<and> copyTask fuel t fs = Some (fs', evs) \<longrightarrow>
            (\<forall>ev \<in> set evs. \<forall>s p. writes ev = Some (s, p) \<longrightarrow>
               (\<exists>root \<in> set (task_sources t). prefix root s \<and> file_level root s < d))
          \<and> (\<forall>p c. node_at fs' p = Some (File c) \<longrightarrow>
               node_at fs p = Some (File c)
               \<or> (\<exists>ev \<in> set evs. \<exists>s. writes ev = Some (s, p)
                     \<and> (\<exists>root \<in> set (task_sources t).
                           prefix root s \<and> file_level root s < d))))"
proof (intro conjI impI)
  assume run: "copyItem fuel root destination d ht fl cr 0 fs = Some (fs', evs)"
  have lv: "prefix root s \<and> file_level root s < d"
    if "ev \<in> set evs" "writes ev = Some (s, p)" for ev s p
    using run assms that by (rule copyItem_writes_level)
  then show "\<forall>ev \<in> set evs. \<forall>s p. writes ev = Some (s, p) \<longrightarrow>
               prefix root s \<and> file_level root s < d"
    by blast
  have ff: "files_from_events fs fs' evs"
    using run by (rule files_from_events_copyItem)
  show "\<forall>p c. node_at fs' p = Some (File c) \<longrightarrow>
               node_at fs p = Some (File c)
               \<or> (\<exists>ev \<in> set evs. \<exists>s. writes ev = Some (s, p)
                     \<and> prefix root s \<and> file_level root s < d)"
  proof (intro allI impI)
    fix p c
    assume "node_at fs' p = Some (File c)"
    with ff consider "node_at fs p = Some (File c)"
      | ev s where "ev \<in> set evs" "writes ev = Some (s, p)"
      unfolding files_from_events_def by blast
    then show "node_at fs p = Some (File c)
               \<or> (\<exists>ev \<in> set evs. \<exists>s. writes ev = Some (s, p)
                     \<and> prefix root s \<and> file_level root s < d)"
    proof cases
      case 1
      then show ?thesis by simp
    next
      case 2
      with lv [OF 2] show ?thesis by blast
    qed
  qed
next
  assume a: "orDefault (depth t) 0 = d \<and> copyTask fuel t fs = Some (fs', evs)"
  then have run: "copyTask fuel t fs = Some (fs', evs)" and pos: "0 < orDefault (depth t) 0"
    using assms by simp_all
  have lv: "\<exists>root \<in> set (task_sources t). prefix root s \<and> file_level root s < d"
    if "ev \<in> set evs" "writes ev = Some (s, p)" for ev s p
    using copyTask_writes_level [OF run pos that] a by simp
  then show "\<forall>ev \<in> set evs. \<forall>s p. writes ev = Some (s, p) \<longrightarrow>
               (\<exists>root \<in> set (task_sources t). prefix root s \<and> file_level root s < d)"
    by blast
  have ff: "files_from_events fs fs' evs"
    using run by (rule files_from_events_copyTask)
  show "\<forall>p c. node_at fs' p = Some (File c) \<longrightarrow>
               node_at fs p = Some (File c)
               \<or> (\<exists>ev \<in> set evs. \<exists>s. writes ev = Some (s, p)
                     \<and> (\<exists>root \<in> set (task_sources t).
                           prefix root s \<and> file_level root s < d))"
  proof (intro allI impI)
    fix p c
    assume "node_at fs' p = Some (File c)"
    with ff consider "node_at fs p = Some (File c)"
      | ev s where "ev \<in> set evs" "writes ev = Some (s, p)"
      unfolding files_from_events_def by blast
    then show "node_at fs p = Some (File c)
               \<or> (\<exists>ev \<in> set evs. \<exists>s. writes ev = Some (s, p)
                     \<and> (\<exists>root \<in> set (task_sources t).
                           prefix root s \<and> file_level root s < d))"
    proof cases
      case 1
      then show ?thesis by simp
    next
      case 2
      with lv [OF 2] show ?thesis by blast
    qed
  qed
qed

theorem depth_bound_on_copied_files_witness:
  "(0::int) < 1
   \<and> copyItem (Suc (Suc 0)) [''a''] [''out'', ''a''] 1 0 False ''overwrite'' 0 fs_tree
     = Some ([([''a''], Dir), ([''a'', ''x.txt''], File ''1''), ([''a'', ''b''], Dir),
              ([''a'', ''b'', ''y.txt''], File ''2''), ([''out''], Dir),
              ([''out'', ''a''], Dir), ([''out'', ''a'', ''x.txt''], File ''1'')],
             [Listed [''a''] 0, Copied [''a'', ''x.txt''] [''out'', ''a'', ''x.txt'']])
   \<and> prefix [''a''] [''a'', ''x.txt'']
   \<and> file_level [''a''] [''a'', ''x.txt''] < 1
   \<and> file_level [''a''] [''a'', ''x.txt''] = 0
   \<and> file_level [''a''] [''a'', ''b'', ''y.txt''] = 1
   \<and> orDefault (depth \<lparr>src = Single [''a''], dest = [''out''], depth = Some 1, height = None,
                          flatten = None, conflictResolution = None\<rparr>) 0 = 1
   \<and> copyTask (Suc (Suc 0))
         \<lparr>src = Single [''a''], dest = [''out''], depth = Some 1, height = None,
           flatten = None, conflictResolution = None\<rparr> fs_tree
     = Some ([([''a''], Dir), ([''a'', ''x.txt''], File ''1''), ([''a'', ''b''], Dir),
              ([''a'', ''b'', ''y.txt''], File ''2''), ([''out''], Dir),
              ([''out'', ''a''], Dir), ([''out'', ''a'', ''x.txt''], File ''1'')],
             [Listed [''a''] 0, Copied [''a'', ''x.txt''] [''out'', ''a'', ''x.txt'']])
   \<and> (\<exists>root \<in> set (task_sources \<lparr>src = Single [''a''], dest = [''out''], depth = Some 1,
                                       height = None, flatten = None,
                                       conflictResolution = None\<rparr>).
         prefix root [''a'', ''x.txt''] \<and> file_level root [''a'', ''x.txt''] < 1)"
proof -
  let ?t = "\<lparr>src = Single [''a''], dest = [''out''], depth = Some 1, height = None,
             flatten = None, conflictResolution = None\<rparr>"
  let ?r = "([([''a''], Dir), ([''a'', ''x.txt''], File ''1''), ([''a'', ''b''], Dir),
              ([''a'', ''b'', ''y.txt''], File ''2''), ([''out''], Dir),
              ([''out'', ''a''], Dir), ([''out'', ''a'', ''x.txt''], File ''1'')],
             [Listed [''a''] 0, Copied [''a'', ''x.txt''] [''out'', ''a'', ''x.txt'']])"
  have run: "copyItem (Suc (Suc 0)) [''a''] [''out'', ''a''] 1 0 False ''overwrite'' 0 fs_tree
     = Some ?r"
    by (simp add: fs_tree_def eval_copy eval_fs copyItem.simps)
  have pos: "(0::int) < 1" by simp
  from depth_bound_on_copied_files [OF pos, THEN conjunct1, rule_format, OF run, THEN conjunct1]
  have a: "prefix [''a''] [''a'', ''x.txt''] \<and> file_level [''a''] [''a'', ''x.txt''] < 1"
    by simp
  have lv: "file_level [''a''] [''a'', ''x.txt''] = 0"
    "file_level [''a''] [''a'', ''b'', ''y.txt''] = 1"
    by (simp_all add: file_level_def nesting_level_def dirname_def)
  have d: "orDefault (depth ?t) 0 = 1"
    by (simp add: orDefault_def)
  have trun: "copyTask (Suc (Suc 0)) ?t fs_tree = Some ?r"
    by (simp add: fs_tree_def eval_copy eval_fs copyItem.simps)
  from depth_bound_on_copied_files [OF pos, where t = ?t, THEN conjunct2, rule_format,
      OF conjI, OF d trun, THEN conjunct1]
  have b: "\<exists>root \<in> set (task_sources ?t).
             prefix root [''a'', ''x.txt''] \<and> file_level root [''a'', ''x.txt''] < 1"
    by simp
  from pos run a lv d trun b show ?thesis by blast
qed

section \<open>The unique-name resolver\<close>

lemma uniqueLoop_free: "\<not> access fs (uniqueLoop fs filePath uniquePath counter)"
proof (induction fs filePath uniquePath counter rule: uniqueLoop.induct)
  case (1 fs filePath uniquePath counter)
  then show ?case
    by (subst uniqueLoop.simps) simp
qed

lemma uniqueLoop_unoccupied:
  "\<not> access fs uniquePath \<Longrightarrow> uniqueLoop fs filePath uniquePath counter = uniquePath"
  by (subst uniqueLoop.simps) simp

lemma uniqueLoop_occupied:
  "access fs uniquePath \<Longrightarrow>
     \<exists>n\<ge>counter. uniqueLoop fs filePath uniquePath counter = suffixed filePath n
        \<and> (\<forall>m. counter \<le> m \<and> m < n \<longrightarrow> access fs (suffixed filePath m))"
proof (induction fs filePath uniquePath counter rule: uniqueLoop.induct)
  case (1 fs filePath uniquePath counter)
  have step: "uniqueLoop fs filePath uniquePath counter
      = uniqueLoop fs filePath (suffixed filePath counter) (counter + 1)"
    using "1.prems" by (subst uniqueLoop.simps) simp
  show ?case
  proof (cases "access fs (suffixed filePath counter)")
    case False
    then have "uniqueLoop fs filePath uniquePath counter = suffixed filePath counter"
      unfolding step by (rule uniqueLoop_unoccupied)
    then show ?thesis by auto
  next
    case True
    from "1.IH" [OF "1.prems" True] obtain n where n: "counter + 1 \<le> n"
      "uniqueLoop fs filePath (suffixed filePath counter) (counter + 1) = suffixed filePath n"
      "\<forall>m. counter + 1 \<le> m \<and> m < n \<longrightarrow> access fs (suffixed filePath m)"
      by blast
    have "access fs (suffixed filePath m)" if "counter \<le> m" "m < n" for m
    proof (cases "m = counter")
      case True
      with \<open>access fs (suffixed filePath counter)\<close> show ?thesis by simp
    next
      case False
      with that n(3) show ?thesis by simp
    qed
    with n(1,2) step show ?thesis
      by (intro exI [of _ n]) simp
  qed
qed

lemma uniqueLoop_pure:
  "\<forall>q. access fs q = access fs2 q \<Longrightarrow>
     uniqueLoop fs filePath uniquePath counter = uniqueLoop fs2 filePath uniquePath counter"
proof (induction fs filePath uniquePath counter rule: uniqueLoop.induct)
  case (1 fs filePath uniquePath counter)
  show ?case
  proof (cases "access fs uniquePath")
    case True
    then have t2: "access fs2 uniquePath" using "1.prems" by simp
    have "uniqueLoop fs filePath uniquePath counter
        = uniqueLoop fs filePath (suffixed filePath counter) (counter + 1)"
      using True by (subst uniqueLoop.simps) simp
    also have "\<dots> = uniqueLoop fs2 filePath (suffixed filePath counter) (counter + 1)"
      using True "1.prems" by (rule "1.IH")
    also have "\<dots> = uniqueLoop fs2 filePath uniquePath counter"
      using t2 by (subst (2) uniqueLoop.simps) simp
    finally show ?thesis .
  next
    case False
    then have "\<not> access fs2 uniquePath" using "1.prems" by simp
    with False show ?thesis by (simp add: uniqueLoop_unoccupied)
  qed
qed

lemma suffixed_eq:
  "p \<noteq> [] \<Longrightarrow>
     suffixed p n = dirname p @ [fst (parse_base (last p)) @ ''_'' @ show_nat n
                                  @ snd (parse_base (last p))]"
  by (simp add: suffixed_def join_def split: prod.splits)

text \<open>
  C4. \<open>getUniqueFileName\<close> starts from the candidate: a candidate that does not exist
  is returned as it is. A candidate that exists is never returned: the result is
  \<open>suffixed p n\<close> for the least \<open>n \<ge> 1\<close> whose path does not exist, every smaller
  number having been found occupied, and \<open>suffixed p n\<close> is \<open>name_n ext\<close> in the
  directory of \<open>p\<close>, with \<open>name\<close> and \<open>ext\<close> parsed from \<open>p\<close> itself whatever \<open>n\<close>. The
  result does not exist. The function returns a path and no file system, and it reads the
  file system through \<open>fs.access\<close> only: two file systems with the same existing paths
  give the same result.
\<close>

theorem getUniqueFileName_resolves:
  "\<not> access fs (getUniqueFileName fs p)
   \<and> (\<not> access fs p \<longrightarrow> getUniqueFileName fs p = p)
   \<and> (access fs p \<longrightarrow>
        getUniqueFileName fs p \<noteq> p
        \<and> (\<exists>n\<ge>1. getUniqueFileName fs p = suffixed p n
              \<and> (\<forall>m. 1 \<le> m \<and> m < n \<longrightarrow> access fs (suffixed p m))))
   \<and> (p \<noteq> [] \<longrightarrow>
        suffixed p k = dirname p @ [fst (parse_base (last p)) @ ''_'' @ show_nat k
                                     @ snd (parse_base (last p))])
   \<and> ((\<forall>q. access fs q = access fs2 q) \<longrightarrow>
        getUniqueFileName fs p = getUniqueFileName fs2 p)"
proof -
  have free: "\<not> access fs (getUniqueFileName fs p)"
    unfolding getUniqueFileName_def by (rule uniqueLoop_free)
  have same: "getUniqueFileName fs p = p" if "\<not> access fs p"
    unfolding getUniqueFileName_def using that by (rule uniqueLoop_unoccupied)
  have other: "getUniqueFileName fs p \<noteq> p" if "access fs p"
    using free that by auto
  have numbered: "\<exists>n\<ge>1. getUniqueFileName fs p = suffixed p n
              \<and> (\<forall>m. 1 \<le> m \<and> m < n \<longrightarrow> access fs (suffixed p m))" if "access fs p"
    unfolding getUniqueFileName_def using that by (rule uniqueLoop_occupied)
  have pure: "getUniqueFileName fs p = getUniqueFileName fs2 p"
    if "\<forall>q. access fs q = access fs2 q"
    unfolding getUniqueFileName_def using that by (rule uniqueLoop_pure)
  from free same other numbered pure suffixed_eq [of p k] show ?thesis
    by blast
qed

lemmas eval_name = getUniqueFileName_def uniqueLoop.simps suffixed_def parse_base_def
  show_nat.simps

theorem getUniqueFileName_resolves_witness:
  "access fs_names [''dist'', ''file1.txt'']
   \<and> getUniqueFileName fs_names [''dist'', ''file1.txt''] = [''dist'', ''file1_2.txt'']
   \<and> [''dist'', ''file1_2.txt''] \<noteq> [''dist'', ''file1.txt'']
   \<and> \<not> access fs_names [''dist'', ''file1_2.txt'']
   \<and> \<not> access fs_names [''dist'', ''new.txt'']
   \<and> getUniqueFileName fs_names [''dist'', ''new.txt''] = [''dist'', ''new.txt'']
   \<and> suffixed [''dist'', ''file1.txt''] 2 = [''dist'', ''file1_2.txt'']"
proof -
  have a: "access fs_names [''dist'', ''file1.txt'']"
    and n: "\<not> access fs_names [''dist'', ''new.txt'']"
    by (simp_all add: fs_names_def eval_fs)
  have r: "getUniqueFileName fs_names [''dist'', ''file1.txt''] = [''dist'', ''file1_2.txt'']"
    by (simp add: fs_names_def eval_fs eval_name)
  have s: "suffixed [''dist'', ''file1.txt''] 2 = [''dist'', ''file1_2.txt'']"
    by (simp add: eval_fs eval_name)
  note g = getUniqueFileName_resolves [of fs_names _ _ fs_names]
  from g [of "[''dist'', ''file1.txt'']"] r
  have f: "\<not> access fs_names [''dist'', ''file1_2.txt'']" by simp
  from g [of "[''dist'', ''new.txt'']"] n
  have k: "getUniqueFileName fs_names [''dist'', ''new.txt''] = [''dist'', ''new.txt'']"
    by blast
  from a n r s f k show ?thesis by simp
qed

section \<open>The rename policy\<close>

lemma takeWhile_rev_split:
  assumes "x \<in> set b"
  shows "\<exists>pre. b = pre @ [x] @ rev (takeWhile (\<lambda>c. c \<noteq> x) (rev b))"
proof -
  let ?P = "\<lambda>c. c \<noteq> x"
  have "rev b = takeWhile ?P (rev b) @ dropWhile ?P (rev b)" by simp
  moreover have "dropWhile ?P (rev b) \<noteq> []"
    using assms by (simp add: dropWhile_eq_Nil_conv) 
  then obtain y ys where d: "dropWhile ?P (rev b) = y # ys"
    by (cases "dropWhile ?P (rev b)") auto
  moreover have "y = x"
    using hd_dropWhile [of ?P "rev b"] d by auto
  ultimately have "rev b = takeWhile ?P (rev b) @ x # ys" by simp
  then have "rev (rev b) = rev (takeWhile ?P (rev b) @ x # ys)" by (rule arg_cong)
  then have "b = rev ys @ [x] @ rev (takeWhile ?P (rev b))" by simp
  then show ?thesis by blast
qed

lemma parse_base_append:
  assumes "parse_base b = (name, ext)"
  shows "name @ ext = b"
proof (cases "CHR ''.'' \<in> set b")
  case False
  with assms show ?thesis by (simp add: parse_base_def Let_def)
next
  case True
  let ?e = "rev (takeWhile (\<lambda>c. c \<noteq> CHR ''.'') (rev b))"
  from takeWhile_rev_split [OF True] obtain pre where b: "b = pre @ [CHR ''.''] @ ?e"
    by blast
  have "length b = length pre + 1 + length ?e"
    by (subst b) simp
  then have "take (length b - length ?e - 1) b = pre"
    by (subst (2) b) simp
  with assms b show ?thesis
    by (auto simp: parse_base_def Let_def split: if_splits)
qed

lemma suffixed_snoc:
  assumes "parse_base base = (name, ext)"
  shows "suffixed (d @ [base]) n = d @ [name @ ''_'' @ show_nat n @ ext]"
  using assms by (simp add: suffixed_def join_def dirname_def)

lemma suffixed_ne_self: "suffixed (d @ [base]) n \<noteq> d @ [base]"
proof -
  obtain name ext where p: "parse_base base = (name, ext)"
    by (cases "parse_base base")
  have "length (name @ ''_'' @ show_nat n @ ext) \<noteq> length (name @ ext)"
    by simp
  then have "name @ ''_'' @ show_nat n @ ext \<noteq> base"
    using parse_base_append [OF p] by metis
  with suffixed_snoc [OF p] show ?thesis by simp
qed

lemma wf_fs_no_orphan:
  assumes "wf_fs fs" and "stat fs s = Inr n" and "node_at fs u = None"
  shows "\<not> strict_prefix u s"
proof
  assume sp: "strict_prefix u s"
  then have "s \<noteq> []" by auto
  with assms(2) have "map_of fs s = Some n"
    by (simp add: stat_Inr_iff node_at_def)
  then have "s \<in> set (map fst fs)"
    by (auto dest: map_of_SomeD intro: rev_image_eqI)
  with assms(1) have "\<forall>q \<in> set (ancestors s). node_at fs q = Some Dir"
    by (auto simp: wf_fs_def list_all_iff)
  with sp have "node_at fs u = Some Dir"
    by (simp add: set_ancestors)
  with assms(3) show False by simp
qed

lemma sibling_stat:
  assumes "stat fs d = Inr Dir" and "\<not> too_long (d @ [x])"
  shows "stat fs (d @ [x]) = (case node_at fs (d @ [x]) of None \<Rightarrow> Inl ENOENT | Some n \<Rightarrow> Inr n)"
proof -
  have "\<not> is_file_at fs q" if "strict_prefix q (d @ [x])" for q
  proof -
    from that have "prefix q d" by (auto simp: strict_prefix_def)
    then consider "q = d" | "strict_prefix q d" by (auto simp: strict_prefix_def)
    then show ?thesis
      using assms(1) by cases (auto simp: stat_Inr_iff is_file_at_iff)
  qed
  then show ?thesis
    using assms(2) by (simp add: stat_def set_ancestors)
qed

lemma write_in_dir:
  assumes "stat fs d = Inr Dir"
  shows "stat (AList.update (d @ [x]) (File c) fs) d = Inr Dir"
    and "\<not> too_long (d @ [x])
           \<Longrightarrow> stat (AList.update (d @ [x]) (File c) fs) (d @ [x]) = Inr (File c)"
    and "y \<noteq> x \<Longrightarrow> stat (AList.update (d @ [x]) (File c) fs) (d @ [y]) = stat fs (d @ [y])"
proof -
  let ?fs = "AList.update (d @ [x]) (File c) fs"
  have "d \<noteq> d @ [x]" "\<not> strict_prefix (d @ [x]) d"
    by (auto simp: strict_prefix_def)
  then show 1: "stat ?fs d = Inr Dir"
    using assms by (simp add: stat_update_other)
  show "stat ?fs (d @ [x]) = Inr (File c)" if "\<not> too_long (d @ [x])"
    by (simp add: sibling_stat [OF 1 that] node_at_update)
  show "stat ?fs (d @ [y]) = stat fs (d @ [y])" if "y \<noteq> x"
    using that by (simp add: stat_update_other strict_prefix_def)
qed

lemma file_not_root: "stat fs s = Inr (File c) \<Longrightarrow> s \<noteq> []"
  by (auto simp: stat_root)

lemma copy_absent_step:
  assumes "stat fs s = Inr (File c)" and "stat fs (d @ [last s]) = Inl ENOENT"
  shows "\<exists>fs0. mkdir_p fs d = Inr fs0
           \<and> copyItem (Suc n) s d dp ht True cr cd fs
               = Some (AList.update (d @ [last s]) (File c) fs0, [Copied s (d @ [last s])])"
proof -
  let ?t = "d @ [last s]"
  have ne: "s \<noteq> []" using assms(1) by (rule file_not_root)
  have dn: "dirname ?t = d" by (simp add: dirname_def)
  obtain fs0 where mk: "mkdir_p fs d = Inr fs0"
    using mkdir_p_after_ENOENT [OF assms(2), of d] by auto
  have s0: "stat fs0 s = Inr (File c)"
    using mk assms(1) by (rule stat_mkdir_p_keeps)
  have t0: "stat fs0 ?t = Inl ENOENT"
    using assms(2) mk stat_mkdir_p_parent_ENOENT [of fs ?t fs0] by (simp add: dn)
  have d0: "stat fs0 d = Inr Dir"
    using mk by (rule stat_mkdir_p_self)
  have cp: "copyFile fs0 s ?t = Inr (AList.update ?t (File c) fs0)"
    using s0 t0 d0 by (intro copyFile_new) (simp_all add: dn)
  have "copyFileItem s d True cr fs = (AList.update ?t (File c) fs0, [Copied s ?t])"
    using assms(2) mk cp ne
    by (simp add: copyFileItem_def join_def basename_def onError_def dn Let_def)
  with mk assms(1) show ?thesis
    by (simp add: copyItem_file)
qed

lemma rename_step:
  assumes "stat fs s = Inr (File c)" and "stat fs d = Inr Dir"
    and "stat fs (d @ [last s]) = Inr (File old)"
    and "getUniqueFileName fs (d @ [last s]) = d @ [x]" and "\<not> too_long (d @ [x])"
  shows "copyItem (Suc n) s d dp ht True ''rename'' cd fs
           = Some (AList.update (d @ [x]) (File c) fs, [Renamed s (d @ [x])])"
proof -
  have ne: "s \<noteq> []" using assms(1) by (rule file_not_root)
  have "\<not> access fs (d @ [x])"
    using uniqueLoop_free [of fs "d @ [last s]" "d @ [last s]" 1] assms(4)
    by (simp add: getUniqueFileName_def)
  then have u: "stat fs (d @ [x]) = Inl ENOENT"
    by (simp add: access_def sibling_stat [OF assms(2,5)] split: option.splits)
  have cp: "copyFile fs s (d @ [x]) = Inr (AList.update (d @ [x]) (File c) fs)"
    using assms(1) u assms(2) by (intro copyFile_new) (simp_all add: dirname_def)
  have "copyFileItem s d True ''rename'' fs
          = (AList.update (d @ [x]) (File c) fs, [Renamed s (d @ [x])])"
    using assms(3,4) cp ne
    by (simp add: copyFileItem_def join_def basename_def Let_def)
  with assms(1) show ?thesis
    by (simp add: copyItem_file)
qed

lemma copy_single_flatten:
  "copy fuel [\<lparr>src = Single s, dest = d, depth = dp, height = ht, flatten = Some True,
               conflictResolution = Some cr\<rparr>] False fs
     = copyItem fuel s d (orDefault dp 0) (orDefault ht 0) True cr 0 fs"
  by (cases "copyItem fuel s d (orDefault dp 0) (orDefault ht 0) True cr 0 fs")
     (auto simp: copy_def copyTask_def orDefault_def)

lemma getUniqueFileName_least:
  assumes "access fs p" and "\<not> access fs (suffixed p k)" and "1 \<le> k"
    and "\<forall>m. 1 \<le> m \<and> m < k \<longrightarrow> access fs (suffixed p m)"
  shows "getUniqueFileName fs p = suffixed p k"
proof -
  from uniqueLoop_occupied [OF assms(1), where filePath = p and counter = 1] obtain n where n: "1 \<le> n"
    "getUniqueFileName fs p = suffixed p n"
    "\<forall>m. 1 \<le> m \<and> m < n \<longrightarrow> access fs (suffixed p m)"
    unfolding getUniqueFileName_def by blast
  have free: "\<not> access fs (suffixed p n)"
    using uniqueLoop_free [of fs p p 1] n(2) by (simp add: getUniqueFileName_def)
  have "\<not> n < k" using free assms(4) n(1) by blast
  moreover have "\<not> k < n" using assms(2,3) n(3) by blast
  ultimately have "n = k" by simp
  with n(2) show ?thesis by simp
qed

text \<open>
  C3. A file \<open>s\<close> is copied three times by the task \<open>t\<close> with \<open>flatten\<close> and the
  \<open>rename\<close> policy into the directory \<open>d\<close>, where \<open>base = name @ ext\<close> is the last
  component of \<open>s\<close> and none of \<open>base\<close>, \<open>name_1 ext\<close>, \<open>name_2 ext\<close> exists in \<open>d\<close> at
  the start (\<open>fs.stat\<close> answers \<open>ENOENT\<close> for each). The first run copies to \<open>d/base\<close>, the second is renamed to
  \<open>d/name_1 ext\<close>, a file distinct from the first, and the third to \<open>d/name_2 ext\<close>;
  all of them hold the bytes of the source.
\<close>

theorem rename_policy_numbers_the_copies:
  assumes "wf_fs fs" and "stat fs s = Inr (File c)"
    and "stat fs (d @ [last s]) = Inl ENOENT"
    and "parse_base (last s) = (name, ext)"
    and "stat fs (d @ [name @ ''_1'' @ ext]) = Inl ENOENT"
    and "stat fs (d @ [name @ ''_2'' @ ext]) = Inl ENOENT"
    and "t = \<lparr>src = Single s, dest = d, depth = dp, height = ht, flatten = Some True,
              conflictResolution = Some ''rename''\<rparr>"
  shows "\<exists>fs1 fs2 fs3.
      copy (Suc n) [t] False fs = Some (fs1, [Copied s (d @ [last s])])
    \<and> copy (Suc n) [t] False fs1 = Some (fs2, [Renamed s (d @ [name @ ''_1'' @ ext])])
    \<and> copy (Suc n) [t] False fs2 = Some (fs3, [Renamed s (d @ [name @ ''_2'' @ ext])])
    \<and> stat fs2 (d @ [last s]) = Inr (File c)
    \<and> stat fs2 (d @ [name @ ''_1'' @ ext]) = Inr (File c)
    \<and> d @ [last s] \<noteq> d @ [name @ ''_1'' @ ext]
    \<and> stat fs3 (d @ [last s]) = Inr (File c)
    \<and> stat fs3 (d @ [name @ ''_1'' @ ext]) = Inr (File c)
    \<and> stat fs3 (d @ [name @ ''_2'' @ ext]) = Inr (File c)
    \<and> last s = name @ ext"
proof -
  let ?T = "d @ [last s]"
  let ?n1 = "name @ ''_1'' @ ext" and ?n2 = "name @ ''_2'' @ ext"
  let ?U1 = "d @ [?n1]" and ?U2 = "d @ [?n2]"
  have base: "last s = name @ ext"
    using parse_base_append [OF assms(4)] by simp
  have n1: "?n1 \<noteq> last s" and n2: "?n2 \<noteq> last s" and n12: "?n2 \<noteq> ?n1"
    by (simp_all add: base)
  have su1: "suffixed ?T 1 = ?U1" and su2: "suffixed ?T 2 = ?U2"
    by (simp_all add: suffixed_snoc [OF assms(4)] show_nat.simps)
  have nT: "node_at fs ?T = None"
    using assms(3) by (simp add: stat_ENOENT_iff)
  have nU1: "node_at fs ?U1 = None" and nU2: "node_at fs ?U2 = None"
    using assms(5,6) by (simp_all add: stat_ENOENT_iff)
  have lT: "\<not> too_long ?T" and l1: "\<not> too_long ?U1" and l2: "\<not> too_long ?U2"
    using assms(3,5,6) by (simp_all add: stat_ENOENT_iff)
  have sT: "s \<noteq> ?T" using assms(2,3) by auto
  have sU1: "s \<noteq> ?U1" and sU2: "s \<noteq> ?U2"
    using assms(2) nU1 nU2 by (auto simp: stat_Inr_iff)
  have oT: "\<not> strict_prefix ?T s" and oU1: "\<not> strict_prefix ?U1 s"
    and oU2: "\<not> strict_prefix ?U2 s"
    by (rule wf_fs_no_orphan [OF assms(1,2) nT], rule wf_fs_no_orphan [OF assms(1,2) nU1],
        rule wf_fs_no_orphan [OF assms(1,2) nU2])
  \<comment> \<open>the first copy\<close>
  from copy_absent_step [OF assms(2,3)] obtain fs0 where mk: "mkdir_p fs d = Inr fs0"
    and run1: "copyItem (Suc n) s d (orDefault dp 0) (orDefault ht 0) True ''rename'' 0 fs
                 = Some (AList.update ?T (File c) fs0, [Copied s ?T])"
    by blast
  let ?fs1 = "AList.update ?T (File c) fs0"
  have d0: "stat fs0 d = Inr Dir" using mk by (rule stat_mkdir_p_self)
  have s0: "stat fs0 s = Inr (File c)" using mk assms(2) by (rule stat_mkdir_p_keeps)
  have "\<not> prefix ?U1 d" "\<not> prefix ?U2 d"
    by (auto dest: prefix_length_le)
  then have u0: "node_at fs0 ?U1 = None" "node_at fs0 ?U2 = None"
    using nU1 nU2 by (simp_all add: node_at_mkdir_p [OF mk])
  have d1: "stat ?fs1 d = Inr Dir" and t1: "stat ?fs1 ?T = Inr (File c)"
    using write_in_dir(1,2) [OF d0] lT by blast+
  have u1: "stat ?fs1 ?U1 = Inl ENOENT" "stat ?fs1 ?U2 = Inl ENOENT"
    using write_in_dir(3) [OF d0, of _ "last s" c] n1 n2 u0 l1 l2
    by (simp_all add: sibling_stat [OF d0])
  have s1: "stat ?fs1 s = Inr (File c)"
    using s0 sT oT by (simp add: stat_update_other)
  \<comment> \<open>the second copy\<close>
  have a1: "access ?fs1 ?T" using t1 by (simp add: access_def)
  have f1: "\<not> access ?fs1 (suffixed ?T 1)"
    unfolding su1 using u1 by (simp add: access_def)
  have "getUniqueFileName ?fs1 ?T = suffixed ?T 1"
    by (rule getUniqueFileName_least [OF a1 f1]) simp_all
  then have g1: "getUniqueFileName ?fs1 ?T = ?U1"
    by (simp only: su1)
  have run2: "copyItem (Suc n) s d (orDefault dp 0) (orDefault ht 0) True ''rename'' 0 ?fs1
                = Some (AList.update ?U1 (File c) ?fs1, [Renamed s ?U1])"
    using s1 d1 t1 g1 l1 by (rule rename_step)
  let ?fs2 = "AList.update ?U1 (File c) ?fs1"
  have d2: "stat ?fs2 d = Inr Dir" and v2: "stat ?fs2 ?U1 = Inr (File c)"
    using write_in_dir(1,2) [OF d1] l1 by blast+
  have t2: "stat ?fs2 ?T = Inr (File c)" and u2: "stat ?fs2 ?U2 = Inl ENOENT"
    using write_in_dir(3) [OF d1, of _ ?n1 c] n1 n12 t1 u1 by simp_all
  have s2: "stat ?fs2 s = Inr (File c)"
    using s1 sU1 oU1 by (simp add: stat_update_other)
  \<comment> \<open>the third copy\<close>
  have a2: "access ?fs2 ?T" using t2 by (simp add: access_def)
  have o2: "access ?fs2 (suffixed ?T 1)"
    unfolding su1 using v2 by (simp add: access_def)
  have f2: "\<not> access ?fs2 (suffixed ?T 2)"
    unfolding su2 using u2 by (simp add: access_def)
  have "access ?fs2 (suffixed ?T m)" if "1 \<le> m \<and> m < 2" for m
  proof -
    from that have "m = 1" by simp
    with o2 show ?thesis by simp
  qed
  then have "getUniqueFileName ?fs2 ?T = suffixed ?T 2"
    by (intro getUniqueFileName_least [OF a2 f2]) simp_all
  then have g2: "getUniqueFileName ?fs2 ?T = ?U2"
    by (simp only: su2)
  have run3: "copyItem (Suc n) s d (orDefault dp 0) (orDefault ht 0) True ''rename'' 0 ?fs2
                = Some (AList.update ?U2 (File c) ?fs2, [Renamed s ?U2])"
    using s2 d2 t2 g2 l2 by (rule rename_step)
  let ?fs3 = "AList.update ?U2 (File c) ?fs2"
  have v3: "stat ?fs3 ?U2 = Inr (File c)"
    using write_in_dir(2) [OF d2] l2 by blast
  have t3: "stat ?fs3 ?T = Inr (File c)" and w3: "stat ?fs3 ?U1 = Inr (File c)"
    using write_in_dir(3) [OF d2, of _ ?n2 c] n2 n12 t2 v2 by simp_all
  have c1: "copy (Suc n) [t] False fs = Some (?fs1, [Copied s ?T])"
    and c2: "copy (Suc n) [t] False ?fs1 = Some (?fs2, [Renamed s ?U1])"
    and c3: "copy (Suc n) [t] False ?fs2 = Some (?fs3, [Renamed s ?U2])"
    unfolding assms(7) copy_single_flatten by (rule run1 run2 run3)+
  have "?T \<noteq> ?U1" using n1 by simp
  with c1 c2 c3 t2 v2 t3 w3 v3 base show ?thesis by blast
qed

theorem rename_policy_numbers_the_copies_witness:
  "wf_fs fs_src
   \<and> stat fs_src [''src'', ''file1.txt''] = Inr (File ''File 1 content'')
   \<and> stat fs_src ([''dist''] @ [last [''src'', ''file1.txt'']]) = Inl ENOENT
   \<and> parse_base (last [''src'', ''file1.txt'']) = (''file1'', ''.txt'')
   \<and> stat fs_src ([''dist''] @ [''file1'' @ ''_1'' @ ''.txt'']) = Inl ENOENT
   \<and> stat fs_src ([''dist''] @ [''file1'' @ ''_2'' @ ''.txt'']) = Inl ENOENT
   \<and> (\<exists>fs1 fs2 fs3.
        copy (Suc 0) [\<lparr>src = Single [''src'', ''file1.txt''], dest = [''dist''], depth = None,
                       height = None, flatten = Some True,
                       conflictResolution = Some ''rename''\<rparr>] False fs_src
          = Some (fs1, [Copied [''src'', ''file1.txt''] [''dist'', ''file1.txt'']])
      \<and> copy (Suc 0) [\<lparr>src = Single [''src'', ''file1.txt''], dest = [''dist''], depth = None,
                       height = None, flatten = Some True,
                       conflictResolution = Some ''rename''\<rparr>] False fs1
          = Some (fs2, [Renamed [''src'', ''file1.txt''] [''dist'', ''file1_1.txt'']])
      \<and> copy (Suc 0) [\<lparr>src = Single [''src'', ''file1.txt''], dest = [''dist''], depth = None,
                       height = None, flatten = Some True,
                       conflictResolution = Some ''rename''\<rparr>] False fs2
          = Some (fs3, [Renamed [''src'', ''file1.txt''] [''dist'', ''file1_2.txt'']])
      \<and> stat fs3 [''dist'', ''file1.txt''] = Inr (File ''File 1 content'')
      \<and> stat fs3 [''dist'', ''file1_1.txt''] = Inr (File ''File 1 content'')
      \<and> stat fs3 [''dist'', ''file1_2.txt''] = Inr (File ''File 1 content''))"
proof -
  have h1: "wf_fs fs_src"
    by (simp add: fs_src_def wf_fs_def eval_fs)
  have h2: "stat fs_src [''src'', ''file1.txt''] = Inr (File ''File 1 content'')"
    and h3: "stat fs_src ([''dist''] @ [last [''src'', ''file1.txt'']]) = Inl ENOENT"
    and h5: "stat fs_src ([''dist''] @ [''file1'' @ ''_1'' @ ''.txt'']) = Inl ENOENT"
    and h6: "stat fs_src ([''dist''] @ [''file1'' @ ''_2'' @ ''.txt'']) = Inl ENOENT"
    by (simp_all add: fs_src_def eval_fs)
  have h4: "parse_base (last [''src'', ''file1.txt'']) = (''file1'', ''.txt'')"
    by (simp add: parse_base_def)
  from rename_policy_numbers_the_copies [OF h1 h2 h3 h4 h5 h6 refl,
      where dp = None and ht = None and n = 0]
  obtain fs1 fs2 fs3 where
        "copy (Suc 0) [\<lparr>src = Single [''src'', ''file1.txt''], dest = [''dist''], depth = None,
                       height = None, flatten = Some True,
                       conflictResolution = Some ''rename''\<rparr>] False fs_src
          = Some (fs1, [Copied [''src'', ''file1.txt''] [''dist'', ''file1.txt'']])"
        "copy (Suc 0) [\<lparr>src = Single [''src'', ''file1.txt''], dest = [''dist''], depth = None,
                       height = None, flatten = Some True,
                       conflictResolution = Some ''rename''\<rparr>] False fs1
          = Some (fs2, [Renamed [''src'', ''file1.txt''] [''dist'', ''file1_1.txt'']])"
        "copy (Suc 0) [\<lparr>src = Single [''src'', ''file1.txt''], dest = [''dist''], depth = None,
                       height = None, flatten = Some True,
                       conflictResolution = Some ''rename''\<rparr>] False fs2
          = Some (fs3, [Renamed [''src'', ''file1.txt''] [''dist'', ''file1_2.txt'']])"
        "stat fs3 [''dist'', ''file1.txt''] = Inr (File ''File 1 content'')"
        "stat fs3 [''dist'', ''file1_1.txt''] = Inr (File ''File 1 content'')"
        "stat fs3 [''dist'', ''file1_2.txt''] = Inr (File ''File 1 content'')"
    by auto
  with h1 h2 h3 h4 h5 h6 show ?thesis by blast
qed

section \<open>The flatten mode on a directory\<close>

text \<open>
  C1. The directory branch hands each entry the destination
  \<open>path.join(destination, path.basename(item))\<close>, and the file branch joins the base
  name of the file once more: a file \<open>a/x.txt\<close> copied by a task with \<open>flatten\<close> from the
  directory \<open>a\<close> to \<open>out\<close> lands in \<open>out/x.txt/x.txt\<close>, and \<open>a/b/y.txt\<close> in
  \<open>out/b/y.txt/y.txt\<close>. The destination then holds the directories \<open>out/x.txt\<close>, \<open>out/b\<close>
  and \<open>out/b/y.txt\<close>, and no file lies in \<open>out\<close> itself.
\<close>

theorem flatten_nests_files_of_a_directory:
  "copy (Suc (Suc (Suc 0)))
      [\<lparr>src = Single [''a''], dest = [''out''], depth = None, height = None,
        flatten = Some True, conflictResolution = None\<rparr>] False fs_tree
     = Some ([([''a''], Dir), ([''a'', ''x.txt''], File ''1''), ([''a'', ''b''], Dir),
              ([''a'', ''b'', ''y.txt''], File ''2''), ([''out''], Dir),
              ([''out'', ''x.txt''], Dir), ([''out'', ''x.txt'', ''x.txt''], File ''1''),
              ([''out'', ''b''], Dir), ([''out'', ''b'', ''y.txt''], Dir),
              ([''out'', ''b'', ''y.txt'', ''y.txt''], File ''2'')],
             [Listed [''a''] 0, Copied [''a'', ''x.txt''] [''out'', ''x.txt'', ''x.txt''],
              Listed [''a'', ''b''] 1,
              Copied [''a'', ''b'', ''y.txt''] [''out'', ''b'', ''y.txt'', ''y.txt'']])
   \<and> dirname [''out'', ''x.txt'', ''x.txt''] \<noteq> [''out'']
   \<and> dirname [''out'', ''b'', ''y.txt'', ''y.txt''] \<noteq> [''out'']"
  by (simp add: fs_tree_def eval_copy eval_fs)

section \<open>Runs return\<close>

declare copyItem.simps(2) [simp del]

lemma forEach_total:
  assumes "I fs"
    and "\<And>x fs0. x \<in> set xs \<Longrightarrow> I fs0 \<Longrightarrow> \<exists>fs1 e. f x fs0 = Some (fs1, e) \<and> I fs1"
  shows "\<exists>r. forEach f xs fs = Some r"
  using assms
proof (induction xs arbitrary: fs)
  case Nil
  then show ?case by simp
next
  case (Cons x xs)
  from Cons.prems(2) [of x fs] Cons.prems(1) obtain fs1 e where
    1: "f x fs = Some (fs1, e)" "I fs1" by auto
  have "\<exists>r. forEach f xs fs1 = Some r"
  proof (rule Cons.IH [OF 1(2)])
    fix y fs0 assume "y \<in> set xs" "I fs0"
    then show "\<exists>fs1 e. f y fs0 = Some (fs1, e) \<and> I fs1"
      using Cons.prems(2) [of y fs0] by simp
  qed
  then obtain fs2 e2 where "forEach f xs fs1 = Some (fs2, e2)" by auto
  with 1(1) show ?case by simp
qed

lemma copyItem_total:
  assumes "path_max < length source + n"
  shows "\<exists>r. copyItem (Suc n) source destination dp ht fl cr cd fs = Some r"
  using assms
proof (induction n arbitrary: source destination cd fs)
  case 0
  then have "too_long source" by (simp add: too_long_depth)
  then have "stat fs source = Inl ENAMETOOLONG" by (simp add: stat_def)
  then show ?case by (simp add: copyItem_nostat)
next
  case (Suc n)
  show ?case
  proof (cases "stat fs source")
    case (Inl e)
    then show ?thesis by (simp add: copyItem_nostat)
  next
    case (Inr nd)
    show ?thesis
    proof (cases nd)
      case (File c)
      with Inr show ?thesis by (simp add: copyItem_file)
    next
      case Dir
      with Inr have d: "stat fs source = Inr Dir" by simp
      obtain items where rd: "readdir fs source = Inr items"
        using readdir_of_dir [OF d] by blast
      show ?thesis
      proof (cases "(0 < dp \<and> dp \<le> cd) \<or> (0 < ht \<and> ht \<le> cd)")
        case True
        show ?thesis by (simp add: copyItem_dir_stop [OF d True])
      next
        case False
        then have b1: "\<not> (0 < dp \<and> dp \<le> cd)" and b2: "\<not> (0 < ht \<and> ht \<le> cd)"
          by blast+
        show ?thesis
        proof (cases "items = [] \<and> fl")
          case True
          with rd have rd0: "readdir fs source = Inr []" and fl: "fl" by simp_all
          show ?thesis by (simp add: copyItem_dir_empty [OF d rd0 fl b1 b2])
        next
          case ne: False
          have "\<exists>fs1. (if fl then fs1 = fs else ensureDir fs destination = Inr fs1)
                  \<or> (\<not> fl \<and> (\<exists>e. ensureDir fs destination = Inl e))"
            by (cases "ensureDir fs destination") auto
          then consider e where "\<not> fl" "ensureDir fs destination = Inl e"
            | fs1 where "if fl then fs1 = fs else ensureDir fs destination = Inr fs1"
            by blast
          then show ?thesis
          proof cases
            case 1
            show ?thesis by (simp add: copyItem_dir_nodir [OF d rd 1(1) b1 b2 1(2)])
          next
            case 2
            let ?f = "\<lambda>item. copyItem (Suc n) (source @ [item]) (destination @ [item])
                         dp ht fl cr (cd + 1)"
            have "\<exists>r. forEach ?f items fs1 = Some r"
            proof (rule forEach_total [where I = "\<lambda>fs0. True"])
              fix item fs0
              have "path_max < length (source @ [item]) + n"
                using Suc.prems by simp
              from Suc.IH [OF this] obtain r where "?f item fs0 = Some r" by blast
              then show "\<exists>fs1 e. ?f item fs0 = Some (fs1, e) \<and> True"
                by (cases r) simp
            qed simp
            then show ?thesis
              by (auto simp: copyItem_dir_loop [OF d rd b1 b2 ne 2])
          qed
        qed
      qed
    qed
  qed
qed

lemma forEach_mono:
  assumes "forEach f xs fs = Some r"
    and "\<And>x fs0 r0. x \<in> set xs \<Longrightarrow> f x fs0 = Some r0 \<Longrightarrow> g x fs0 = Some r0"
  shows "forEach g xs fs = Some r"
  using assms
proof (induction xs arbitrary: fs r)
  case Nil
  then show ?case by simp
next
  case (Cons x xs)
  from Cons.prems(1) obtain fs1 e1 fs2 e2 where
    a: "f x fs = Some (fs1, e1)" and b: "forEach f xs fs1 = Some (fs2, e2)"
    and c: "r = (fs2, e1 @ e2)"
    by (auto split: option.splits)
  have a': "g x fs = Some (fs1, e1)" using a Cons.prems(2) [of x] by simp
  have b': "forEach g xs fs1 = Some (fs2, e2)"
  proof (rule Cons.IH [OF b])
    fix y fs0 r0 assume "y \<in> set xs" "f y fs0 = Some r0"
    then show "g y fs0 = Some r0" using Cons.prems(2) [of y] by simp
  qed
  from a' b' c show ?case by simp
qed

lemma copyItem_mono:
  assumes "copyItem n source destination dp ht fl cr cd fs = Some r" and "n \<le> m"
  shows "copyItem m source destination dp ht fl cr cd fs = Some r"
  using assms
proof (induction n arbitrary: m source destination cd fs r)
  case 0
  then show ?case by simp
next
  case (Suc n)
  from Suc.prems(2) obtain m' where m: "m = Suc m'" "n \<le> m'"
    by (cases m) auto
  obtain fs' evs where r: "r = (fs', evs)" by (cases r)
  from Suc.prems(1) [unfolded r] show ?case
  proof (cases rule: copyItem_Suc_cases)
    case (nostat e)
    have "copyItem (Suc m') source destination dp ht fl cr cd fs = Some (fs, [Failed source e])"
      by (rule copyItem_nostat [OF nostat(1)])
    with nostat(2,3) show ?thesis by (simp add: m r)
  next
    case (regular c)
    have "copyItem (Suc m') source destination dp ht fl cr cd fs
            = Some (copyFileItem source destination fl cr fs)"
      by (rule copyItem_file [OF regular(1)])
    with regular(2) show ?thesis by (simp add: m r)
  next
    case stop
    have "copyItem (Suc m') source destination dp ht fl cr cd fs = Some (fs, [])"
      by (rule copyItem_dir_stop [OF stop(1,4)])
    with stop(2,3) show ?thesis by (simp add: m r)
  next
    case empty
    have "copyItem (Suc m') source destination dp ht fl cr cd fs = Some (fs, [Listed source cd])"
      by (rule copyItem_dir_empty [OF empty(1,6,7,4,5)])
    with empty(2,3) show ?thesis by (simp add: m r)
  next
    case (nodir e)
    from nodir(1) obtain items where rd: "readdir fs source = Inr items"
      using readdir_of_dir by blast
    have "copyItem (Suc m') source destination dp ht fl cr cd fs
            = Some (fs, [Listed source cd, Failed source e])"
      by (rule copyItem_dir_nodir [OF nodir(1) rd nodir(5,6,7,4)])
    with nodir(2,3) show ?thesis by (simp add: m r)
  next
    case (loop items fs1 evs1)
    have "forEach (\<lambda>item. copyItem m' (source @ [item]) (destination @ [item])
                      dp ht fl cr (cd + 1)) items fs1 = Some (fs', evs1)"
    proof (rule forEach_mono [OF loop(4)])
      fix item fs0 r0
      assume "copyItem n (source @ [item]) (destination @ [item]) dp ht fl cr (cd + 1) fs0
                = Some r0"
      then show "copyItem m' (source @ [item]) (destination @ [item]) dp ht fl cr (cd + 1) fs0
                = Some r0"
        using m(2) by (rule Suc.IH)
    qed
    then have "copyItem (Suc m') source destination dp ht fl cr cd fs
                 = Some (fs', Listed source cd # evs1)"
      by (simp add: copyItem_dir_loop [OF loop(1,2,6,7,8,3)])
    with loop(5) show ?thesis by (simp add: m r)
  qed
qed

lemma copyItem_eventually:
  "\<exists>r. \<forall>n\<ge>path_max + 2. copyItem n source destination dp ht fl cr cd fs = Some r"
proof -
  have "path_max < length source + Suc path_max" by simp
  from copyItem_total [OF this, of destination dp ht fl cr cd fs] obtain r where
    "copyItem (Suc (Suc path_max)) source destination dp ht fl cr cd fs = Some r" by blast
  then have "copyItem (path_max + 2) source destination dp ht fl cr cd fs = Some r"
    by simp
  then have "\<forall>n\<ge>path_max + 2. copyItem n source destination dp ht fl cr cd fs = Some r"
    using copyItem_mono by blast
  then show ?thesis ..
qed

lemma forEach_eventually:
  assumes "\<And>x fs0. x \<in> set xs \<Longrightarrow> \<exists>r. \<forall>n\<ge>N. f (n::nat) x fs0 = Some r"
  shows "\<exists>r. \<forall>n\<ge>N. forEach (f n) xs fs = Some r"
  using assms
proof (induction xs arbitrary: fs)
  case Nil
  then show ?case by simp
next
  case (Cons x xs)
  from Cons.prems [of x fs] obtain fs1 e1 where
    1: "\<forall>n\<ge>N. f n x fs = Some (fs1, e1)" by auto
  have "\<exists>r. \<forall>n\<ge>N. forEach (f n) xs fs1 = Some r"
  proof (rule Cons.IH)
    fix y fs0 assume "y \<in> set xs"
    then show "\<exists>r. \<forall>n\<ge>N. f n y fs0 = Some r"
      using Cons.prems [of y fs0] by simp
  qed
  then obtain fs2 e2 where 2: "\<forall>n\<ge>N. forEach (f n) xs fs1 = Some (fs2, e2)"
    by auto
  have "forEach (f n) (x # xs) fs = Some (fs2, e1 @ e2)" if "N \<le> n" for n
    using that 1 2 by simp
  then show ?case by blast
qed

lemma copyTask_eventually:
  "\<exists>r. \<forall>n\<ge>path_max + 2. copyTask n t fs = Some r"
proof (cases "src t")
  case (Single s)
  from copyItem_eventually Single show ?thesis
    by (simp add: copyTask_def Let_def)
next
  case (Multi ss)
  let ?fl = "orDefault (flatten t) False"
  let ?d = "\<lambda>source. if ?fl then dest t else join (dest t) (relative (dirname source) source)"
  let ?f = "\<lambda>n source. copyItem n source (?d source) (orDefault (depth t) 0)
              (orDefault (height t) 0) ?fl (orDefault (conflictResolution t) ''overwrite'') 0"
  have "\<exists>r. \<forall>n\<ge>path_max + 2. forEach (?f n) ss fs = Some r"
    by (rule forEach_eventually) (rule copyItem_eventually)
  with Multi show ?thesis
    by (simp add: copyTask_def Let_def)
qed

lemma copy_eventually:
  "\<exists>fs' evs. \<forall>n\<ge>path_max + 2. copy n cfg dn fs
           = Some (fs', evs @ (if dn then [Done] else []))"
proof -
  have "\<exists>r. \<forall>n\<ge>path_max + 2. forEach (\<lambda>t. copyTask n t) cfg fs = Some r"
    by (rule forEach_eventually) (rule copyTask_eventually)
  then obtain fs' evs where
    "\<forall>n\<ge>path_max + 2. forEach (copyTask n) cfg fs = Some (fs', evs)"
    by auto
  then have "\<forall>n\<ge>path_max + 2. copy n cfg dn fs
               = Some (fs', evs @ (if dn then [Done] else []))"
    by (simp add: copy_def)
  then show ?thesis by blast
qed

lemma forEach_chain_D:
  assumes "forEach f xs fs = Some (fs', evs)"
  shows "\<exists>fss es. length fss = Suc (length xs) \<and> length es = length xs
           \<and> fss ! 0 = fs \<and> fss ! length xs = fs'
           \<and> (\<forall>i<length xs. f (xs ! i) (fss ! i) = Some (fss ! Suc i, es ! i))
           \<and> evs = concat es"
  using assms
proof (induction xs arbitrary: fs fs' evs)
  case Nil
  then have "length [fs] = Suc (length ([]::'a list)) \<and> length ([]::event list list) = length ([]::'a list)
      \<and> [fs] ! 0 = fs \<and> [fs] ! length ([]::'a list) = fs'
      \<and> (\<forall>i<length ([]::'a list). f ([] ! i) ([fs] ! i) = Some ([fs] ! Suc i, [] ! i))
      \<and> evs = concat []"
    by simp
  then show ?case by blast
next
  case (Cons x xs)
  from Cons.prems obtain fs1 e1 e2 where
    a: "f x fs = Some (fs1, e1)" and b: "forEach f xs fs1 = Some (fs', e2)"
    and c: "evs = e1 @ e2"
    by (auto split: option.splits)
  from Cons.IH [OF b] obtain fss es where
    l1: "length fss = Suc (length xs)" and l2: "length es = length xs"
    and h: "fss ! 0 = fs1" and t: "fss ! length xs = fs'"
    and st: "\<forall>i<length xs. f (xs ! i) (fss ! i) = Some (fss ! Suc i, es ! i)"
    and ev: "e2 = concat es"
    by blast
  have st': "f ((x # xs) ! i) ((fs # fss) ! i) = Some ((fs # fss) ! Suc i, (e1 # es) ! i)"
    if "i < length (x # xs)" for i
  proof (cases i)
    case 0
    with a h show ?thesis by simp
  next
    case (Suc j)
    with that st show ?thesis by simp
  qed
  have "length (fs # fss) = Suc (length (x # xs)) \<and> length (e1 # es) = length (x # xs)
      \<and> (fs # fss) ! 0 = fs \<and> (fs # fss) ! length (x # xs) = fs'
      \<and> (\<forall>i<length (x # xs). f ((x # xs) ! i) ((fs # fss) ! i)
             = Some ((fs # fss) ! Suc i, (e1 # es) ! i))
      \<and> evs = concat (e1 # es)"
    using l1 l2 t c ev st' by simp
  then show ?case by blast
qed

lemma forEach_chain_I:
  assumes "length fss = Suc (length xs)" and "length es = length xs"
    and "\<forall>i<length xs. f (xs ! i) (fss ! i) = Some (fss ! Suc i, es ! i)"
  shows "forEach f xs (fss ! 0) = Some (fss ! length xs, concat es)"
  using assms
proof (induction xs arbitrary: fss es)
  case Nil
  then show ?case by simp
next
  case (Cons x xs)
  from Cons.prems(1) obtain a fss' where fss: "fss = a # fss'" and l1: "length fss' = Suc (length xs)"
    by (cases fss) auto
  from Cons.prems(2) obtain e es' where es: "es = e # es'" and l2: "length es' = length xs"
    by (cases es) auto
  from Cons.prems(3) [rule_format, of 0] have 0: "f x a = Some (fss' ! 0, e)"
    by (simp add: fss es)
  have "f (xs ! i) (fss' ! i) = Some (fss' ! Suc i, es' ! i)" if "i < length xs" for i
    using Cons.prems(3) [rule_format, of "Suc i"] that by (simp add: fss es)
  then have "forEach f xs (fss' ! 0) = Some (fss' ! length xs, concat es')"
    using Cons.IH [OF l1 l2] by blast
  with 0 show ?case by (simp add: fss es)
qed

lemma forEach_chain:
  "forEach f xs fs = Some (fs', evs) \<longleftrightarrow>
     (\<exists>fss es. length fss = Suc (length xs) \<and> length es = length xs
           \<and> fss ! 0 = fs \<and> fss ! length xs = fs'
           \<and> (\<forall>i<length xs. f (xs ! i) (fss ! i) = Some (fss ! Suc i, es ! i))
           \<and> evs = concat es)"
proof
  assume "forEach f xs fs = Some (fs', evs)"
  then show "\<exists>fss es. length fss = Suc (length xs) \<and> length es = length xs
           \<and> fss ! 0 = fs \<and> fss ! length xs = fs'
           \<and> (\<forall>i<length xs. f (xs ! i) (fss ! i) = Some (fss ! Suc i, es ! i))
           \<and> evs = concat es"
    by (rule forEach_chain_D)
next
  assume "\<exists>fss es. length fss = Suc (length xs) \<and> length es = length xs
           \<and> fss ! 0 = fs \<and> fss ! length xs = fs'
           \<and> (\<forall>i<length xs. f (xs ! i) (fss ! i) = Some (fss ! Suc i, es ! i))
           \<and> evs = concat es"
  then obtain fss es where "length fss = Suc (length xs)" "length es = length xs"
    "fss ! 0 = fs" "fss ! length xs = fs'"
    "\<forall>i<length xs. f (xs ! i) (fss ! i) = Some (fss ! Suc i, es ! i)" "evs = concat es"
    by blast
  with forEach_chain_I [of fss xs es f] show "forEach f xs fs = Some (fs', evs)"
    by simp
qed


lemma copy_chain:
  "copy fuel cfg dn fs = Some (fs', evs) \<longleftrightarrow>
     (\<exists>fss es. length fss = Suc (length cfg) \<and> length es = length cfg
           \<and> fss ! 0 = fs \<and> fss ! length cfg = fs'
           \<and> (\<forall>i<length cfg. copyTask fuel (cfg ! i) (fss ! i) = Some (fss ! Suc i, es ! i))
           \<and> evs = concat es @ (if dn then [Done] else []))"
proof -
  have "copy fuel cfg dn fs = Some (fs', evs) \<longleftrightarrow>
          (\<exists>evs1. forEach (copyTask fuel) cfg fs = Some (fs', evs1)
                  \<and> evs = evs1 @ (if dn then [Done] else []))"
    by (auto simp: copy_def split: option.splits)
  then show ?thesis
    unfolding forEach_chain by blast
qed

lemma copyTask_chain:
  assumes "src t = Multi ss"
  shows "copyTask fuel t fs = Some (fs', evs) \<longleftrightarrow>
     (\<exists>fss es. length fss = Suc (length ss) \<and> length es = length ss
           \<and> fss ! 0 = fs \<and> fss ! length ss = fs'
           \<and> (\<forall>i<length ss.
                 copyItem fuel (ss ! i)
                   (if orDefault (flatten t) False then dest t
                    else join (dest t) (relative (dirname (ss ! i)) (ss ! i)))
                   (orDefault (depth t) 0) (orDefault (height t) 0)
                   (orDefault (flatten t) False)
                   (orDefault (conflictResolution t) ''overwrite'') 0 (fss ! i)
                 = Some (fss ! Suc i, es ! i))
           \<and> evs = concat es)"
proof -
  let ?f = "\<lambda>source. copyItem fuel source
              (if orDefault (flatten t) False then dest t
               else join (dest t) (relative (dirname source) source))
              (orDefault (depth t) 0) (orDefault (height t) 0) (orDefault (flatten t) False)
              (orDefault (conflictResolution t) ''overwrite'') 0"
  have "copyTask fuel t fs = forEach ?f ss fs"
    using assms by (simp add: copyTask_def Let_def)
  then show ?thesis
    unfolding forEach_chain [of ?f ss fs fs' evs, symmetric] by simp
qed

lemma copyItem_chain:
  assumes "stat fs source = Inr Dir" and "readdir fs source = Inr items"
    and "\<not> (0 < dp \<and> dp \<le> cd)" and "\<not> (0 < ht \<and> ht \<le> cd)"
    and "if fl then fs1 = fs else ensureDir fs destination = Inr fs1"
  shows "copyItem (Suc n) source destination dp ht fl cr cd fs = Some (fs', evs) \<longleftrightarrow>
     (\<exists>fss es. length fss = Suc (length items) \<and> length es = length items
           \<and> fss ! 0 = fs1 \<and> fss ! length items = fs'
           \<and> (\<forall>i<length items.
                 copyItem n (join source [items ! i])
                   (if fl then join destination (basename [items ! i])
                    else join destination [items ! i])
                   dp ht fl cr (cd + 1) (fss ! i)
                 = Some (fss ! Suc i, es ! i))
           \<and> evs = Listed source cd # concat es)"
proof -
  let ?f = "\<lambda>item. copyItem n (join source [item])
              (if fl then join destination (basename [item]) else join destination [item])
              dp ht fl cr (cd + 1)"
  have "copyItem (Suc n) source destination dp ht fl cr cd fs
          = (case forEach ?f items fs1 of
               None \<Rightarrow> None
             | Some (fs2, evs1) \<Rightarrow> Some (fs2, Listed source cd # evs1))"
    using assms by (cases fl) (auto simp: copyItem.simps)
  then have "copyItem (Suc n) source destination dp ht fl cr cd fs = Some (fs', evs) \<longleftrightarrow>
          (\<exists>evs1. forEach ?f items fs1 = Some (fs', evs1) \<and> evs = Listed source cd # evs1)"
    by (auto split: option.splits)
  then show ?thesis
    unfolding forEach_chain by blast
qed


text \<open>
  C6. \<open>copyItem\<close> has no way to fail: whatever a call of the file system throws inside
  its \<open>try\<close> is reported as a \<open>Failed\<close> event for the source of that call, and the call
  returns the file system as the calls before the error left it. So a source that cannot
  be read, a file whose destination is a directory or cannot be looked up, a directory
  whose destination is a file or cannot be made and an unknown policy each give one
  \<open>Failed\<close> event and leave the file system unchanged. None of the three loops stops at
  an element that failed. A call of \<open>copyItem\<close> on a directory that is listed returns
  exactly when there are states and runs, one for each entry in the order of the listing,
  such that the call of \<open>copyItem\<close> on each entry returns that run on the state the entry
  before left, whatever that run reports; the result is the last state and \<open>Listed\<close>
  followed by all these runs. The same holds of \<open>copyTask\<close> with the sources of an array
  \<open>src\<close> and of \<open>copy\<close> with the tasks of \<open>cfg\<close>. And the whole invocation returns and
  calls \<open>done\<close>, for every file system and every list of tasks: each nested call has a
  source one component longer, and \<open>fs.stat\<close> refuses a source of more than \<open>path_max\<close>
  components, which is one more failure that is caught. So \<open>path_max + 2\<close> nested calls
  are enough, also for a task that copies a directory into itself.
\<close>

theorem failures_are_caught_where_they_happen:
  "(\<exists>fs' evs. \<forall>fuel\<ge>path_max + 2.
            copy fuel cfg dn fs = Some (fs', evs @ (if dn then [Done] else [])))
       \<and> (stat fs0 source = Inl e \<longrightarrow>
            copyItem (Suc n) source destination dp ht fl cr cd fs0
              = Some (fs0, [Failed source e]))
       \<and> (stat fs0 source = Inr (File c)
            \<and> stat fs0 (if fl then join destination (basename source) else destination) = Inr Dir
          \<longrightarrow> copyItem (Suc n) source destination dp ht fl cr cd fs0
              = Some (fs0, [Failed source (FileOverDir source
                     (if fl then join destination (basename source) else destination))]))
       \<and> (stat fs0 source = Inr Dir \<and> \<not> (0 < dp \<and> dp \<le> cd) \<and> \<not> (0 < ht \<and> ht \<le> cd)
            \<and> stat fs0 destination = Inr (File c)
          \<longrightarrow> copyItem (Suc n) source destination dp ht False cr cd fs0
              = Some (fs0, [Listed source cd, Failed source (DirOverFile destination)]))
       \<and> (stat fs0 source = Inr (File c)
            \<and> stat fs0 (if fl then join destination (basename source) else destination)
                = Inr (File old)
            \<and> cr \<noteq> ''overwrite'' \<and> cr \<noteq> ''skip'' \<and> cr \<noteq> ''rename''
          \<longrightarrow> copyItem (Suc n) source destination dp ht fl cr cd fs0
              = Some (fs0, [Failed source (UnknownStrategy cr)]))
       \<and> (stat fs0 source = Inr (File c)
            \<and> stat fs0 (if fl then join destination (basename source) else destination) = Inl e
            \<and> e \<noteq> ENOENT
          \<longrightarrow> copyItem (Suc n) source destination dp ht fl cr cd fs0
              = Some (fs0, [Failed source e]))
       \<and> (stat fs0 source = Inr Dir \<and> \<not> (0 < dp \<and> dp \<le> cd) \<and> \<not> (0 < ht \<and> ht \<le> cd)
            \<and> ensureDir fs0 destination = Inl e
          \<longrightarrow> copyItem (Suc n) source destination dp ht False cr cd fs0
              = Some (fs0, [Listed source cd, Failed source e]))
       \<and> (stat fs0 source = Inr Dir \<and> \<not> (0 < dp \<and> dp \<le> cd) \<and> \<not> (0 < ht \<and> ht \<le> cd)
            \<and> readdir fs0 source = Inr items
            \<and> (if fl then fs1 = fs0 else ensureDir fs0 destination = Inr fs1)
          \<longrightarrow> (copyItem (Suc n) source destination dp ht fl cr cd fs0 = Some (fs2, evs2) \<longleftrightarrow>
                (\<exists>fss es. length fss = Suc (length items) \<and> length es = length items
                   \<and> fss ! 0 = fs1 \<and> fss ! length items = fs2
                   \<and> (\<forall>i<length items.
                         copyItem n (join source [items ! i])
                           (if fl then join destination (basename [items ! i])
                            else join destination [items ! i])
                           dp ht fl cr (cd + 1) (fss ! i)
                         = Some (fss ! Suc i, es ! i))
                   \<and> evs2 = Listed source cd # concat es)))
       \<and> (src t = Multi ss
          \<longrightarrow> (copyTask fuel t fs0 = Some (fs2, evs2) \<longleftrightarrow>
                (\<exists>fss es. length fss = Suc (length ss) \<and> length es = length ss
                   \<and> fss ! 0 = fs0 \<and> fss ! length ss = fs2
                   \<and> (\<forall>i<length ss.
                         copyItem fuel (ss ! i)
                           (if orDefault (flatten t) False then dest t
                            else join (dest t) (relative (dirname (ss ! i)) (ss ! i)))
                           (orDefault (depth t) 0) (orDefault (height t) 0)
                           (orDefault (flatten t) False)
                           (orDefault (conflictResolution t) ''overwrite'') 0 (fss ! i)
                         = Some (fss ! Suc i, es ! i))
                   \<and> evs2 = concat es)))
       \<and> (copy fuel cfg dn fs0 = Some (fs2, evs2) \<longleftrightarrow>
            (\<exists>fss es. length fss = Suc (length cfg) \<and> length es = length cfg
               \<and> fss ! 0 = fs0 \<and> fss ! length cfg = fs2
               \<and> (\<forall>i<length cfg.
                     copyTask fuel (cfg ! i) (fss ! i) = Some (fss ! Suc i, es ! i))
               \<and> evs2 = concat es @ (if dn then [Done] else [])))"
proof -
  have 1: "\<exists>fs' evs. \<forall>fuel\<ge>path_max + 2.
            copy fuel cfg dn fs = Some (fs', evs @ (if dn then [Done] else []))"
    by (rule copy_eventually)
  have 2: "stat fs0 source = Inl e \<longrightarrow>
            copyItem (Suc n) source destination dp ht fl cr cd fs0
              = Some (fs0, [Failed source e])"
    by (simp add: copyItem_nostat)
  have 3: "stat fs0 source = Inr (File c)
            \<and> stat fs0 (if fl then join destination (basename source) else destination) = Inr Dir
          \<longrightarrow> copyItem (Suc n) source destination dp ht fl cr cd fs0
              = Some (fs0, [Failed source (FileOverDir source
                     (if fl then join destination (basename source) else destination))])"
    by (simp add: copyItem_file copyFileItem_def onError_def)
  have 7: "copyItem (Suc n) source destination dp ht False cr cd fs0
              = Some (fs0, [Listed source cd, Failed source e])"
    if a: "stat fs0 source = Inr Dir \<and> \<not> (0 < dp \<and> dp \<le> cd) \<and> \<not> (0 < ht \<and> ht \<le> cd)
        \<and> ensureDir fs0 destination = Inl e" for e
  proof -
    from a obtain items where rd: "readdir fs0 source = Inr items"
      using readdir_of_dir by blast
    with a show ?thesis
      by (intro copyItem_dir_nodir) simp_all
  qed
  have 4: "stat fs0 source = Inr Dir \<and> \<not> (0 < dp \<and> dp \<le> cd) \<and> \<not> (0 < ht \<and> ht \<le> cd)
            \<and> stat fs0 destination = Inr (File c)
          \<longrightarrow> copyItem (Suc n) source destination dp ht False cr cd fs0
              = Some (fs0, [Listed source cd, Failed source (DirOverFile destination)])"
  proof
    assume a: "stat fs0 source = Inr Dir \<and> \<not> (0 < dp \<and> dp \<le> cd) \<and> \<not> (0 < ht \<and> ht \<le> cd)
            \<and> stat fs0 destination = Inr (File c)"
    then have "ensureDir fs0 destination = Inl (DirOverFile destination)"
      by (simp add: ensureDir_def)
    with a show "copyItem (Suc n) source destination dp ht False cr cd fs0
              = Some (fs0, [Listed source cd, Failed source (DirOverFile destination)])"
      by (intro 7) simp
  qed
  have 5: "stat fs0 source = Inr (File c)
            \<and> stat fs0 (if fl then join destination (basename source) else destination)
                = Inr (File old)
            \<and> cr \<noteq> ''overwrite'' \<and> cr \<noteq> ''skip'' \<and> cr \<noteq> ''rename''
          \<longrightarrow> copyItem (Suc n) source destination dp ht fl cr cd fs0
              = Some (fs0, [Failed source (UnknownStrategy cr)])"
    by (simp add: copyItem_file copyFileItem_def onError_def)
  have 6: "stat fs0 source = Inr (File c)
            \<and> stat fs0 (if fl then join destination (basename source) else destination) = Inl e
            \<and> e \<noteq> ENOENT
          \<longrightarrow> copyItem (Suc n) source destination dp ht fl cr cd fs0
              = Some (fs0, [Failed source e])"
    by (simp add: copyItem_file copyFileItem_def onError_def)
  have 8: "stat fs0 source = Inr Dir \<and> \<not> (0 < dp \<and> dp \<le> cd) \<and> \<not> (0 < ht \<and> ht \<le> cd)
            \<and> readdir fs0 source = Inr items
            \<and> (if fl then fs1 = fs0 else ensureDir fs0 destination = Inr fs1)
          \<longrightarrow> (copyItem (Suc n) source destination dp ht fl cr cd fs0 = Some (fs2, evs2) \<longleftrightarrow>
                (\<exists>fss es. length fss = Suc (length items) \<and> length es = length items
                   \<and> fss ! 0 = fs1 \<and> fss ! length items = fs2
                   \<and> (\<forall>i<length items.
                         copyItem n (join source [items ! i])
                           (if fl then join destination (basename [items ! i])
                            else join destination [items ! i])
                           dp ht fl cr (cd + 1) (fss ! i)
                         = Some (fss ! Suc i, es ! i))
                   \<and> evs2 = Listed source cd # concat es))"
  proof
    assume a: "stat fs0 source = Inr Dir \<and> \<not> (0 < dp \<and> dp \<le> cd) \<and> \<not> (0 < ht \<and> ht \<le> cd)
            \<and> readdir fs0 source = Inr items
            \<and> (if fl then fs1 = fs0 else ensureDir fs0 destination = Inr fs1)"
    then have "stat fs0 source = Inr Dir" "readdir fs0 source = Inr items"
      "\<not> (0 < dp \<and> dp \<le> cd)" "\<not> (0 < ht \<and> ht \<le> cd)"
      "if fl then fs1 = fs0 else ensureDir fs0 destination = Inr fs1"
      by blast+
    then show "copyItem (Suc n) source destination dp ht fl cr cd fs0 = Some (fs2, evs2) \<longleftrightarrow>
                (\<exists>fss es. length fss = Suc (length items) \<and> length es = length items
                   \<and> fss ! 0 = fs1 \<and> fss ! length items = fs2
                   \<and> (\<forall>i<length items.
                         copyItem n (join source [items ! i])
                           (if fl then join destination (basename [items ! i])
                            else join destination [items ! i])
                           dp ht fl cr (cd + 1) (fss ! i)
                         = Some (fss ! Suc i, es ! i))
                   \<and> evs2 = Listed source cd # concat es)"
      by (rule copyItem_chain)
  qed
  have 9: "src t = Multi ss
          \<longrightarrow> (copyTask fuel t fs0 = Some (fs2, evs2) \<longleftrightarrow>
                (\<exists>fss es. length fss = Suc (length ss) \<and> length es = length ss
                   \<and> fss ! 0 = fs0 \<and> fss ! length ss = fs2
                   \<and> (\<forall>i<length ss.
                         copyItem fuel (ss ! i)
                           (if orDefault (flatten t) False then dest t
                            else join (dest t) (relative (dirname (ss ! i)) (ss ! i)))
                           (orDefault (depth t) 0) (orDefault (height t) 0)
                           (orDefault (flatten t) False)
                           (orDefault (conflictResolution t) ''overwrite'') 0 (fss ! i)
                         = Some (fss ! Suc i, es ! i))
                   \<and> evs2 = concat es))"
    by (rule impI) (rule copyTask_chain)
  have 10: "copy fuel cfg dn fs0 = Some (fs2, evs2) \<longleftrightarrow>
            (\<exists>fss es. length fss = Suc (length cfg) \<and> length es = length cfg
               \<and> fss ! 0 = fs0 \<and> fss ! length cfg = fs2
               \<and> (\<forall>i<length cfg.
                     copyTask fuel (cfg ! i) (fss ! i) = Some (fss ! Suc i, es ! i))
               \<and> evs2 = concat es @ (if dn then [Done] else []))"
    by (rule copy_chain)
  have e7: "stat fs0 source = Inr Dir \<and> \<not> (0 < dp \<and> dp \<le> cd) \<and> \<not> (0 < ht \<and> ht \<le> cd)
            \<and> ensureDir fs0 destination = Inl e
          \<longrightarrow> copyItem (Suc n) source destination dp ht False cr cd fs0
              = Some (fs0, [Listed source cd, Failed source e])"
    using 7 by blast
  show ?thesis
    by (intro conjI; (rule 1 2 3 4 5 6 e7 8 9 10))
qed


theorem failures_are_caught_where_they_happen_witness:
  "(\<exists>fs' evs. \<forall>fuel\<ge>path_max + 2.
       copy fuel cfg_with_failures True fs_tree = Some (fs', evs @ [Done]))
   \<and> (\<exists>fs' evs. \<forall>fuel\<ge>path_max + 2.
       copy fuel [\<lparr>src = Single [''a''], dest = [''a'', ''b''], depth = None, height = None,
                   flatten = None, conflictResolution = None\<rparr>] True fs_tree
         = Some (fs', evs @ [Done]))
   \<and> stat fs_tree [''missing''] = Inl ENOENT
   \<and> copyItem (Suc 0) [''missing''] [''out''] 0 0 True ''overwrite'' 0 fs_tree
       = Some (fs_tree, [Failed [''missing''] ENOENT])
   \<and> copy (Suc (Suc 0)) cfg_with_failures True fs_tree
       = Some ([([''a''], Dir), ([''a'', ''x.txt''], File ''1''), ([''a'', ''b''], Dir),
                ([''a'', ''b'', ''y.txt''], File ''2''), ([''out''], Dir),
                ([''out'', ''x.txt''], File ''1''), ([''out'', ''y.txt''], File ''2''),
                ([''out2''], Dir), ([''out2'', ''y.txt''], File ''2'')],
               [Copied [''a'', ''x.txt''] [''out'', ''x.txt''],
                Failed [''missing''] ENOENT,
                Copied [''a'', ''b'', ''y.txt''] [''out'', ''y.txt''],
                Listed [''a'', ''b''] 0,
                Failed [''a'', ''b''] ENOTDIR,
                Failed [''a'', ''x.txt''] (UnknownStrategy ''bogus''),
                Copied [''a'', ''b'', ''y.txt''] [''out2'', ''y.txt''],
                Done])
   \<and> stat fs_siblings [''a''] = Inr Dir
   \<and> readdir fs_siblings [''a''] = Inr [''x.txt'', ''z.txt'']
   \<and> ensureDir fs_siblings [''out'', ''a''] = Inr fs_siblings
   \<and> copyItem (Suc (Suc 0)) [''a''] [''out'', ''a''] 0 0 False ''overwrite'' 0 fs_siblings
       = Some (fs_siblings @ [([''out'', ''a'', ''z.txt''], File ''3'')],
               [Listed [''a''] 0,
                Failed [''a'', ''x.txt'']
                  (FileOverDir [''a'', ''x.txt''] [''out'', ''a'', ''x.txt'']),
                Copied [''a'', ''z.txt''] [''out'', ''a'', ''z.txt'']])
   \<and> copyItem (Suc 0) [''a'', ''x.txt''] [''out'', ''a'', ''x.txt''] 0 0 False ''overwrite'' 1
         fs_siblings
       = Some (fs_siblings, [Failed [''a'', ''x.txt'']
                  (FileOverDir [''a'', ''x.txt''] [''out'', ''a'', ''x.txt''])])
   \<and> copyItem (Suc 0) [''a'', ''z.txt''] [''out'', ''a'', ''z.txt''] 0 0 False ''overwrite'' 1
         fs_siblings
       = Some (fs_siblings @ [([''out'', ''a'', ''z.txt''], File ''3'')],
               [Copied [''a'', ''z.txt''] [''out'', ''a'', ''z.txt'']])"
proof -
  note k = failures_are_caught_where_they_happen
  from k [where dn = True and fs = fs_tree and cfg = cfg_with_failures, THEN conjunct1]
  have t: "\<exists>fs' evs. \<forall>fuel\<ge>path_max + 2.
      copy fuel cfg_with_failures True fs_tree = Some (fs', evs @ [Done])"
    by simp
  from k [where dn = True and fs = fs_tree
      and cfg = "[\<lparr>src = Single [''a''], dest = [''a'', ''b''], depth = None, height = None,
                   flatten = None, conflictResolution = None\<rparr>]", THEN conjunct1]
  have u: "\<exists>fs' evs. \<forall>fuel\<ge>path_max + 2.
       copy fuel [\<lparr>src = Single [''a''], dest = [''a'', ''b''], depth = None, height = None,
                   flatten = None, conflictResolution = None\<rparr>] True fs_tree
         = Some (fs', evs @ [Done])"
    by simp
  have h: "stat fs_tree [''missing''] = Inl ENOENT"
    by (simp add: fs_tree_def eval_fs)
  from k [where ?fs0.0 = fs_tree and source = "[''missing'']" and e = ENOENT and n = 0
      and destination = "[''out'']" and dp = 0 and ht = 0 and fl = True
      and cr = "''overwrite''" and cd = 0, THEN conjunct2, THEN conjunct1] h
  have m: "copyItem (Suc 0) [''missing''] [''out''] 0 0 True ''overwrite'' 0 fs_tree
       = Some (fs_tree, [Failed [''missing''] ENOENT])"
    by simp
  have r: "copy (Suc (Suc 0)) cfg_with_failures True fs_tree
       = Some ([([''a''], Dir), ([''a'', ''x.txt''], File ''1''), ([''a'', ''b''], Dir),
                ([''a'', ''b'', ''y.txt''], File ''2''), ([''out''], Dir),
                ([''out'', ''x.txt''], File ''1''), ([''out'', ''y.txt''], File ''2''),
                ([''out2''], Dir), ([''out2'', ''y.txt''], File ''2'')],
               [Copied [''a'', ''x.txt''] [''out'', ''x.txt''],
                Failed [''missing''] ENOENT,
                Copied [''a'', ''b'', ''y.txt''] [''out'', ''y.txt''],
                Listed [''a'', ''b''] 0,
                Failed [''a'', ''b''] ENOTDIR,
                Failed [''a'', ''x.txt''] (UnknownStrategy ''bogus''),
                Copied [''a'', ''b'', ''y.txt''] [''out2'', ''y.txt''],
                Done])"
    by (simp add: cfg_with_failures_def fs_tree_def eval_copy eval_fs copyItem.simps)
  let ?F = "fs_siblings @ [([''out'', ''a'', ''z.txt''], File ''3'')]"
  let ?bad = "Failed [''a'', ''x.txt''] (FileOverDir [''a'', ''x.txt''] [''out'', ''a'', ''x.txt''])"
  let ?good = "Copied [''a'', ''z.txt''] [''out'', ''a'', ''z.txt'']"
  have s1: "stat fs_siblings [''a''] = Inr Dir"
    by (simp add: fs_siblings_def eval_fs)
  have s2: "readdir fs_siblings [''a''] = Inr [''x.txt'', ''z.txt'']"
    by (simp add: fs_siblings_def eval_fs readdir_def)
  have s3: "ensureDir fs_siblings [''out'', ''a''] = Inr fs_siblings"
    by (simp add: fs_siblings_def eval_fs ensureDir_def)
  have s4: "copyItem (Suc (Suc 0)) [''a''] [''out'', ''a''] 0 0 False ''overwrite'' 0 fs_siblings
       = Some (?F, [Listed [''a''] 0, ?bad, ?good])"
    by (simp add: fs_siblings_def eval_copy eval_fs copyItem.simps)
  have s5: "copyItem (Suc 0) [''a'', ''x.txt''] [''out'', ''a'', ''x.txt''] 0 0 False ''overwrite'' 1
         fs_siblings = Some (fs_siblings, [?bad])"
    by (simp add: fs_siblings_def eval_copy eval_fs copyItem.simps)
  have hyp: "stat fs_siblings [''a''] = Inr Dir \<and> \<not> ((0::int) < 0 \<and> (0::int) \<le> 0)
      \<and> \<not> ((0::int) < 0 \<and> (0::int) \<le> 0)
      \<and> readdir fs_siblings [''a''] = Inr [''x.txt'', ''z.txt'']
      \<and> (if False then fs_siblings = fs_siblings
         else ensureDir fs_siblings [''out'', ''a''] = Inr fs_siblings)"
    using s1 s2 s3 by simp
  from k [where ?fs0.0 = fs_siblings and source = "[''a'']" and destination = "[''out'', ''a'']"
      and dp = 0 and ht = 0 and fl = False and cr = "''overwrite''" and cd = 0 and n = "Suc 0"
      and items = "[''x.txt'', ''z.txt'']" and ?fs1.0 = fs_siblings and ?fs2.0 = ?F
      and ?evs2.0 = "[Listed [''a''] 0, ?bad, ?good]",
      THEN conjunct2, THEN conjunct2, THEN conjunct2, THEN conjunct2, THEN conjunct2,
      THEN conjunct2, THEN conjunct2, THEN conjunct1, THEN mp, OF hyp, THEN iffD1, OF s4]
  obtain fss es where l0: "length fss = Suc (length [''x.txt'', ''z.txt''])"
      "length es = length [''x.txt'', ''z.txt'']"
    and b0: "fss ! 0 = fs_siblings" "fss ! length [''x.txt'', ''z.txt''] = ?F"
    and st0: "\<forall>i<length [''x.txt'', ''z.txt''].
                copyItem (Suc 0) (join [''a''] [[''x.txt'', ''z.txt''] ! i])
                  (if False then join [''out'', ''a''] (basename [[''x.txt'', ''z.txt''] ! i])
                   else join [''out'', ''a''] [[''x.txt'', ''z.txt''] ! i])
                  0 0 False ''overwrite'' (0 + 1) (fss ! i) = Some (fss ! Suc i, es ! i)"
    and ev0: "[Listed [''a''] 0, ?bad, ?good] = Listed [''a''] 0 # concat es"
    by blast
  from l0 have l: "length fss = 3" "length es = 2" by simp_all
  from b0 have b: "fss ! 0 = fs_siblings" "fss ! Suc (Suc 0) = ?F" by simp_all
  from st0 have st: "\<forall>i<Suc (Suc 0). copyItem (Suc 0) (join [''a''] [[''x.txt'', ''z.txt''] ! i])
                      (join [''out'', ''a''] [[''x.txt'', ''z.txt''] ! i])
                      0 0 False ''overwrite'' 1 (fss ! i) = Some (fss ! Suc i, es ! i)"
    by simp
  from ev0 have ev: "[?bad, ?good] = concat es" by simp
  from st [rule_format, of 0] b(1) s5 have i0: "fss ! Suc 0 = fs_siblings" "es ! 0 = [?bad]"
    by (simp_all add: join_def)
  from l(2) obtain e0 e1 where es: "es = [e0, e1]"
    by (cases es; cases "tl es"; cases "tl (tl es)") auto
  with i0(2) ev have "e1 = [?good]" by simp
  with st [rule_format, of "Suc 0"] i0(1) b(2) es
  have s6: "copyItem (Suc 0) [''a'', ''z.txt''] [''out'', ''a'', ''z.txt''] 0 0 False ''overwrite'' 1
         fs_siblings = Some (?F, [?good])"
    by (simp add: join_def)
  from t u h m r s1 s2 s3 s4 s5 s6 show ?thesis by blast
qed

end
